theory Spec2Isabelle
  imports Complex_Main "HOL-Library.Multiset" "HOL-Library.Char_ord" "HOL-Library.List_Lexorder"
begin

section \<open>The story graph of generate_story.py\<close>

text \<open>
  Python strings are modelled as \<^typ>\<open>string\<close> (code points below 256), a
  \<^verbatim>\<open>Path\<close> as the list of its components, a \<^verbatim>\<open>dict\<close> as an association list
  in insertion order, and every exception the analysers can raise as a value of
  \<open>error\<close>.
\<close>

datatype error = KeyError | ValueError | IndexError | TypeError | AttributeError | YAMLError

record StoryPart =
  text_body :: string
  filepath :: "string list"
  pathname :: string
  pace :: "string option"
  colour :: "string option"
  effect :: "string option"
  pov :: "string option"
  messagepov :: "string option"
  messagetitle :: "string option"
  revisit :: bool
  choices :: "(string \<times> string) list"

record StoryParts =
  variants :: "StoryPart list"
  is_start :: bool
  is_end :: bool

type_synonym graph = "(string \<times> StoryParts) list"

text \<open>\<^verbatim>\<open>StoryParts.revisit\<close>: all variants are revisitable.\<close>

definition parts_revisit :: "StoryParts \<Rightarrow> bool" where
  "parts_revisit p = list_all revisit (variants p)"

text \<open>\<^verbatim>\<open>Path.name\<close>: the final component, empty for the empty path.\<close>

definition path_name :: "string list \<Rightarrow> string" where
  "path_name fp = (if fp = [] then [] else last fp)"

text \<open>\<^verbatim>\<open>choice in parts\<close>.\<close>

definition in_parts :: "graph \<Rightarrow> string \<Rightarrow> bool" where
  "in_parts parts k = (map_of parts k \<noteq> None)"

text \<open>\<^verbatim>\<open>node.choices.values()\<close>.\<close>

definition choice_values :: "StoryPart \<Rightarrow> string list" where
  "choice_values node = map snd (choices node)"

text \<open>
  The well-formedness that \<^verbatim>\<open>find_parts\<close> establishes: the keys of the dictionary are
  distinct and every variant is filed under its own \<^verbatim>\<open>pathname\<close>.
\<close>

definition wf_graph :: "graph \<Rightarrow> bool" where
  "wf_graph parts =
     (distinct (map fst parts) \<and>
      list_all (\<lambda>kp. list_all (\<lambda>v. pathname v = fst kp) (variants (snd kp))) parts)"

fun all_nodes :: "graph \<Rightarrow> StoryPart list" where
  "all_nodes [] = []"
| "all_nodes ((name, path) # rest) = variants path @ all_nodes rest"

fun starting_nodes :: "graph \<Rightarrow> StoryPart list" where
  "starting_nodes [] = []"
| "starting_nodes ((name, path) # rest) =
     (if is_start path then variants path @ starting_nodes rest else starting_nodes rest)"

subsection \<open>invalid_links\<close>

text \<open>
  The inner loop over \<^verbatim>\<open>part.choices.values()\<close> with its two \<^verbatim>\<open>break\<close>s. A choice value
  is a string here (\<^verbatim>\<open>find_parts\<close> keeps only truthy values), so \<^verbatim>\<open>choice is None\<close> is
  never true.
\<close>

fun has_invalid_choice :: "graph \<Rightarrow> string list \<Rightarrow> bool" where
  "has_invalid_choice parts [] = False"
| "has_invalid_choice parts (choice # rest) =
     (if \<not> in_parts parts choice then True else has_invalid_choice parts rest)"

fun invalid_links_loop :: "graph \<Rightarrow> graph \<Rightarrow> StoryPart list" where
  "invalid_links_loop parts [] = []"
| "invalid_links_loop parts ((name, path) # rest) =
     (if is_end path then invalid_links_loop parts rest
      else filter (\<lambda>part. has_invalid_choice parts (choice_values part)) (variants path)
           @ invalid_links_loop parts rest)"

definition invalid_links :: "graph \<Rightarrow> StoryPart list" where
  "invalid_links parts = invalid_links_loop parts parts"

subsection \<open>unreachable_nodes\<close>

text \<open>The variants pushed for the choices of one node: those of every target that is a key.\<close>

fun push_choices :: "graph \<Rightarrow> string list \<Rightarrow> StoryPart list" where
  "push_choices parts [] = []"
| "push_choices parts (choice # rest) =
     (case map_of parts choice of
        Some p \<Rightarrow> variants p @ push_choices parts rest
      | None \<Rightarrow> push_choices parts rest)"

text \<open>
  The \<^verbatim>\<open>while stack\<close> loop: \<^verbatim>\<open>stack.pop()\<close> takes the last element,
  \<^verbatim>\<open>stack.extend\<close> appends, \<^verbatim>\<open>visited\<close> holds file names, and
  \<^verbatim>\<open>parts[node.pathname]\<close> raises \<^verbatim>\<open>KeyError\<close> on a missing key.
\<close>

function unreachable_loop :: "graph \<Rightarrow> StoryPart list \<Rightarrow> string set \<Rightarrow> error + string set" where
  "unreachable_loop parts stack visited =
     (if stack = [] then Inr visited
      else
        let node = last stack; stack' = butlast stack in
        if path_name (filepath node) \<in> visited then unreachable_loop parts stack' visited
        else
          let visited' = insert (path_name (filepath node)) visited in
          (case map_of parts (pathname node) of
             None \<Rightarrow> Inl KeyError
           | Some p \<Rightarrow>
               if is_end p then unreachable_loop parts stack' visited'
               else unreachable_loop parts
                      (stack' @ push_choices parts (choice_values node)) visited'))"
  by pat_completeness auto

definition node_names :: "StoryPart list \<Rightarrow> string set" where
  "node_names ns = set (map (\<lambda>n. path_name (filepath n)) ns)"

lemma all_nodes_concat: "all_nodes parts = concat (map (\<lambda>kp. variants (snd kp)) parts)"
  by (induction parts rule: all_nodes.induct) auto

lemma push_choices_subset: "set (push_choices parts cs) \<subseteq> set (all_nodes parts)"
proof (induction cs)
  case Nil
  then show ?case by simp
next
  case (Cons c cs)
  show ?case
  proof (cases "map_of parts c")
    case None
    with Cons show ?thesis by simp
  next
    case (Some p)
    then have "(c, p) \<in> set parts" by (rule map_of_SomeD)
    then have "set (variants p) \<subseteq> set (all_nodes parts)"
      by (force simp: all_nodes_concat)
    with Cons Some show ?thesis by simp
  qed
qed

termination unreachable_loop
proof (relation "measures
    [\<lambda>(parts, stack, visited). card ((node_names (all_nodes parts) \<union> node_names stack) - visited),
     \<lambda>(parts, stack, visited). length stack]")
  show "wf (measures
    [\<lambda>(parts, stack, visited). card ((node_names (all_nodes parts) \<union> node_names stack) - visited),
     \<lambda>(parts, stack, visited). length stack])"
    by simp
next
  fix parts :: graph and stack :: "StoryPart list" and visited :: "string set"
    and x xa
  assume ne: "stack \<noteq> []" and x: "x = last stack" and xa: "xa = butlast stack"
    and vis: "path_name (filepath x) \<in> visited"
  have "node_names xa \<subseteq> node_names stack"
    unfolding xa node_names_def by (auto dest: in_set_butlastD)
  then have "(node_names (all_nodes parts) \<union> node_names xa) - visited
      \<subseteq> (node_names (all_nodes parts) \<union> node_names stack) - visited"
    by auto
  moreover have "finite ((node_names (all_nodes parts) \<union> node_names stack) - visited)"
    by (simp add: node_names_def)
  ultimately have "card ((node_names (all_nodes parts) \<union> node_names xa) - visited)
      \<le> card ((node_names (all_nodes parts) \<union> node_names stack) - visited)"
    by (rule card_mono[rotated])
  moreover have "length xa < length stack"
    using ne xa by simp
  ultimately show "((parts, xa, visited), (parts, stack, visited)) \<in> measures
    [\<lambda>(parts, stack, visited). card ((node_names (all_nodes parts) \<union> node_names stack) - visited),
     \<lambda>(parts, stack, visited). length stack]"
    by auto
next
  fix parts :: graph and stack :: "StoryPart list" and visited :: "string set"
    and x xa xb x2
  assume ne: "stack \<noteq> []" and x: "x = last stack" and xa: "xa = butlast stack"
    and vis: "path_name (filepath x) \<notin> visited"
    and xb: "xb = insert (path_name (filepath x)) visited"
  have fin: "finite ((node_names (all_nodes parts) \<union> node_names stack) - visited)"
    by (simp add: node_names_def)
  have mem: "path_name (filepath x) \<in> node_names stack"
    using ne x by (simp add: node_names_def)
  have sub: "node_names xa \<subseteq> node_names stack"
    unfolding xa node_names_def by (auto dest: in_set_butlastD)
  have "(node_names (all_nodes parts) \<union> node_names xa) - xb
      \<subset> (node_names (all_nodes parts) \<union> node_names stack) - visited"
    using sub mem vis xb by auto
  then have "card ((node_names (all_nodes parts) \<union> node_names xa) - xb)
      < card ((node_names (all_nodes parts) \<union> node_names stack) - visited)"
    using fin by (rule psubset_card_mono[rotated])
  then show "((parts, xa, xb), (parts, stack, visited)) \<in> measures
    [\<lambda>(parts, stack, visited). card ((node_names (all_nodes parts) \<union> node_names stack) - visited),
     \<lambda>(parts, stack, visited). length stack]"
    by auto
next
  fix parts :: graph and stack :: "StoryPart list" and visited :: "string set"
    and x xa xb x2
  assume ne: "stack \<noteq> []" and x: "x = last stack" and xa: "xa = butlast stack"
    and vis: "path_name (filepath x) \<notin> visited"
    and xb: "xb = insert (path_name (filepath x)) visited"
  have fin: "finite ((node_names (all_nodes parts) \<union> node_names stack) - visited)"
    by (simp add: node_names_def)
  have mem: "path_name (filepath x) \<in> node_names stack"
    using ne x by (simp add: node_names_def)
  have sub: "node_names xa \<subseteq> node_names stack"
    unfolding xa node_names_def by (auto dest: in_set_butlastD)
  have "node_names (push_choices parts (choice_values x)) \<subseteq> node_names (all_nodes parts)"
    using push_choices_subset[of parts "choice_values x"] by (auto simp: node_names_def)
  then have "(node_names (all_nodes parts)
        \<union> node_names (xa @ push_choices parts (choice_values x))) - xb
      \<subset> (node_names (all_nodes parts) \<union> node_names stack) - visited"
    using sub mem vis xb by (auto simp: node_names_def)
  then have "card ((node_names (all_nodes parts)
        \<union> node_names (xa @ push_choices parts (choice_values x))) - xb)
      < card ((node_names (all_nodes parts) \<union> node_names stack) - visited)"
    using fin by (rule psubset_card_mono[rotated])
  then show "((parts, xa @ push_choices parts (choice_values x), xb), (parts, stack, visited))
      \<in> measures
    [\<lambda>(parts, stack, visited). card ((node_names (all_nodes parts) \<union> node_names stack) - visited),
     \<lambda>(parts, stack, visited). length stack]"
    by auto
qed

definition unreachable_nodes :: "graph \<Rightarrow> error + StoryPart list" where
  "unreachable_nodes parts =
     (let stack = starting_nodes parts; every_node = all_nodes parts in
      if stack = [] then Inr every_node
      else
        (case unreachable_loop parts stack {} of
           Inl e \<Rightarrow> Inl e
         | Inr visited \<Rightarrow>
             Inr (filter (\<lambda>node. path_name (filepath node) \<notin> visited) every_node)))"

subsection \<open>Reachability of groups\<close>

text \<open>
  A group is reachable via valid links when it is a start group or the target, a key of
  the graph, of a choice of some variant of a reachable group.
\<close>

inductive reachable_via_valid_links :: "graph \<Rightarrow> string \<Rightarrow> bool" for parts where
  rv_start: "map_of parts k = Some p \<Longrightarrow> is_start p \<Longrightarrow> reachable_via_valid_links parts k"
| rv_step: "reachable_via_valid_links parts k \<Longrightarrow> map_of parts k = Some p \<Longrightarrow>
     v \<in> set (variants p) \<Longrightarrow> c \<in> set (choice_values v) \<Longrightarrow> in_parts parts c \<Longrightarrow>
     reachable_via_valid_links parts c"

text \<open>
  The same, with links followed out of groups that are not end groups only: what the
  traversal of \<^verbatim>\<open>unreachable_nodes\<close> follows.
\<close>

inductive reachable_before_end :: "graph \<Rightarrow> string \<Rightarrow> bool" for parts where
  rb_start: "map_of parts k = Some p \<Longrightarrow> is_start p \<Longrightarrow> reachable_before_end parts k"
| rb_step: "reachable_before_end parts k \<Longrightarrow> map_of parts k = Some p \<Longrightarrow> \<not> is_end p \<Longrightarrow>
     v \<in> set (variants p) \<Longrightarrow> c \<in> set (choice_values v) \<Longrightarrow> in_parts parts c \<Longrightarrow>
     reachable_before_end parts c"

text \<open>No two nodes of the graph share a file name, the identity the traversal uses.\<close>

definition distinct_file_names :: "graph \<Rightarrow> bool" where
  "distinct_file_names parts = distinct (map (\<lambda>n. path_name (filepath n)) (all_nodes parts))"

text \<open>
  The loop invariant: the targets of every visited node outside an end group are
  visited or on the stack.
\<close>

definition expanded :: "graph \<Rightarrow> StoryPart list \<Rightarrow> string set \<Rightarrow> bool" where
  "expanded parts stack visited =
     (\<forall>n \<in> set (all_nodes parts). path_name (filepath n) \<in> visited \<longrightarrow>
        (\<forall>p. map_of parts (pathname n) = Some p \<longrightarrow> \<not> is_end p \<longrightarrow>
          (\<forall>m \<in> set (push_choices parts (choice_values n)).
             path_name (filepath m) \<in> visited \<or> m \<in> set stack)))"

subsection \<open>looping_nodes\<close>

text \<open>
  The variants \<^verbatim>\<open>depth_search\<close> descends into from one node, in call order: for every
  choice that is a key, unless the target group disallows revisiting and its name is among
  the ancestors, every variant of the target.
\<close>

definition search_targets :: "graph \<Rightarrow> string list \<Rightarrow> string list \<Rightarrow> StoryPart list" where
  "search_targets parts ancestor_names cs =
     concat (map (\<lambda>choice.
       case map_of parts choice of
         None \<Rightarrow> []
       | Some q \<Rightarrow>
           if \<not> parts_revisit q \<and> choice \<in> set ancestor_names then [] else variants q) cs)"

text \<open>
  \<^verbatim>\<open>depth_search\<close>, with the list \<^verbatim>\<open>loops\<close> it appends to passed in and returned.
\<close>

function depth_search ::
  "graph \<Rightarrow> StoryPart \<Rightarrow> StoryPart list \<Rightarrow> StoryPart list list \<Rightarrow> error + StoryPart list list" where
  "depth_search parts node ancestors loops =
     (if pathname node \<in> set (map pathname ancestors) then Inr (loops @ [ancestors @ [node]])
      else
        (case map_of parts (pathname node) of
           None \<Rightarrow> Inl KeyError
         | Some p \<Rightarrow>
             if is_end p then Inr loops
             else if length ancestors > 2 * length parts then Inr loops
             else
               fold (\<lambda>variant acc.
                       case acc of
                         Inl e \<Rightarrow> Inl e
                       | Inr ls \<Rightarrow> depth_search parts variant (ancestors @ [node]) ls)
                 (search_targets parts (map pathname ancestors) (choice_values node))
                 (Inr loops)))"
  by pat_completeness auto

termination
  by (relation "measure (\<lambda>(parts, node, ancestors, loops). 2 * length parts + 1 - length ancestors)")
     auto

declare depth_search.simps [simp del]

text \<open>
  Python compares a tuple with a list as unequal whatever they hold; the two kinds of
  sequence are kept apart to model the comparison in \<^verbatim>\<open>canonical_looping\<close>.
\<close>

datatype pyseq = PyTuple "string list" | PyList "string list"

text \<open>\<^verbatim>\<open>names.index(x)\<close> for an \<open>x\<close> that occurs in \<open>names\<close>.\<close>

definition index_of :: "string list \<Rightarrow> string \<Rightarrow> nat" where
  "index_of names x = length (takeWhile (\<lambda>y. y \<noteq> x) names)"

text \<open>
  \<^verbatim>\<open>canonical_looping\<close>: \<^verbatim>\<open>names[-1]\<close> raises \<^verbatim>\<open>IndexError\<close> on an empty loop and
  \<^verbatim>\<open>min\<close> raises \<^verbatim>\<open>ValueError\<close> on an empty list; \<^verbatim>\<open>minimum\<close> is a tuple and is
  compared with a list.
\<close>

definition canonical_looping :: "StoryPart list \<Rightarrow> error + (StoryPart list \<times> string list)" where
  "canonical_looping loop0 =
     (if loop0 = [] then Inl IndexError
      else
        let names0 = map pathname loop0;
            start = index_of names0 (last names0);
            loop = drop start loop0;
            names = drop start names0;
            rotations = map (\<lambda>i. drop i names @ take i names) [0..<length names]
        in
        if rotations = [] then Inl ValueError
        else
          let minimum = PyTuple (fold min (tl rotations) (hd rotations)) in
          (case find (\<lambda>i. minimum = PyList (map pathname loop)) [0..<length loop] of
             Some i \<Rightarrow> Inr (drop i loop @ take i loop, drop i names @ take i names)
           | None \<Rightarrow> Inr (loop, names)))"

text \<open>The loop that keeps the first loop of every canonical name sequence.\<close>

fun unique_loops ::
  "StoryPart list list \<Rightarrow> StoryPart list list \<Rightarrow> string list list \<Rightarrow> error + StoryPart list list" where
  "unique_loops [] unique unique_name = Inr unique"
| "unique_loops (loop # rest) unique unique_name =
     (case canonical_looping loop of
        Inl e \<Rightarrow> Inl e
      | Inr (this_loop, this_name) \<Rightarrow>
          if this_name \<notin> set unique_name
          then unique_loops rest (unique @ [this_loop]) (unique_name @ [this_name])
          else unique_loops rest unique unique_name)"

definition looping_nodes :: "graph \<Rightarrow> error + StoryPart list list" where
  "looping_nodes parts =
     (case fold (\<lambda>node acc.
                   case acc of Inl e \<Rightarrow> Inl e | Inr ls \<Rightarrow> depth_search parts node [] ls)
             (starting_nodes parts) (Inr []) of
        Inl e \<Rightarrow> Inl e
      | Inr loops \<Rightarrow> unique_loops loops [] [])"

subsection \<open>escapable_looping_nodes and innescapable_looping_nodes\<close>

text \<open>
  A loop over candidates that returns \<^verbatim>\<open>True\<close> at the first success: the
  \<^verbatim>\<open>for ... if search(v, visited): return True\<close> of \<^verbatim>\<open>search\<close> and the \<^verbatim>\<open>any\<close> of
  \<^verbatim>\<open>can_escape\<close>.
\<close>

fun first_success :: "('a \<Rightarrow> error + bool) \<Rightarrow> 'a list \<Rightarrow> error + bool" where
  "first_success f [] = Inr False"
| "first_success f (x # xs) =
     (case f x of
        Inl e \<Rightarrow> Inl e
      | Inr b \<Rightarrow> if b then Inr True else first_success f xs)"

lemma first_success_cong [fundef_cong]:
  "xs = ys \<Longrightarrow> (\<And>x. x \<in> set ys \<Longrightarrow> f x = g x) \<Longrightarrow> first_success f xs = first_success g ys"
  by (induction ys arbitrary: xs) (auto split: sum.splits)

text \<open>
  The candidates \<^verbatim>\<open>search\<close> tries from a group, in call order. Both branches of the test
  on \<^verbatim>\<open>loop_names\<close> run the same loop.
\<close>

definition escape_targets :: "graph \<Rightarrow> string set \<Rightarrow> StoryParts \<Rightarrow> StoryPart list" where
  "escape_targets parts loop_names thispart =
     concat (map (\<lambda>variant.
       concat (map (\<lambda>choice.
         case map_of parts choice of
           None \<Rightarrow> []
         | Some q \<Rightarrow> if choice \<notin> loop_names then variants q else variants q)
         (choice_values variant)))
       (variants thispart))"

function search :: "graph \<Rightarrow> string set \<Rightarrow> StoryPart \<Rightarrow> string set \<Rightarrow> error + bool" where
  "search parts loop_names node visited =
     (case map_of parts (pathname node) of
        None \<Rightarrow> Inl KeyError
      | Some thispart \<Rightarrow>
          if is_end thispart then Inr True
          else if pathname node \<in> visited then Inr False
          else
            first_success (\<lambda>v. search parts loop_names v (visited \<union> {pathname node}))
              (escape_targets parts loop_names thispart))"
  by pat_completeness auto

termination
proof (relation "measure (\<lambda>(parts, loop_names, node, visited). card (set (map fst parts) - visited))")
  show "wf (measure (\<lambda>(parts, loop_names, node, visited). card (set (map fst parts) - visited)))"
    by simp
next
  fix parts :: graph and loop_names :: "string set" and node :: StoryPart
    and visited :: "string set" and x2 :: StoryParts and x :: StoryPart
  assume look: "map_of parts (pathname node) = Some x2" and nv: "pathname node \<notin> visited"
  from look have "pathname node \<in> set (map fst parts)"
    by (auto dest: map_of_SomeD intro: rev_image_eqI)
  with nv have "set (map fst parts) - (visited \<union> {pathname node}) \<subset> set (map fst parts) - visited"
    by auto
  then have "card (set (map fst parts) - (visited \<union> {pathname node}))
      < card (set (map fst parts) - visited)"
    by (intro psubset_card_mono) auto
  then show "((parts, loop_names, x, visited \<union> {pathname node}), (parts, loop_names, node, visited))
      \<in> measure (\<lambda>(parts, loop_names, node, visited). card (set (map fst parts) - visited))"
    by simp
qed

declare search.simps [simp del]

definition can_escape :: "graph \<Rightarrow> StoryPart list \<Rightarrow> error + bool" where
  "can_escape parts loop =
     (let loop_names = set (map pathname loop) in
      first_success (\<lambda>node. search parts loop_names node {}) loop)"

text \<open>
  The nested \<^verbatim>\<open>can_escape\<close> and \<^verbatim>\<open>search\<close> of \<^verbatim>\<open>innescapable_looping_nodes\<close> are, line
  for line, those of \<^verbatim>\<open>escapable_looping_nodes\<close>; one definition models both. The two
  functions differ in the test of the final loop only.
\<close>

fun escapable_loop :: "graph \<Rightarrow> StoryPart list list \<Rightarrow> StoryPart list list \<Rightarrow> error + StoryPart list list" where
  "escapable_loop parts [] escapable = Inr escapable"
| "escapable_loop parts (loop # rest) escapable =
     (case can_escape parts loop of
        Inl e \<Rightarrow> Inl e
      | Inr b \<Rightarrow>
          if b then escapable_loop parts rest (escapable @ [loop])
          else escapable_loop parts rest escapable)"

definition escapable_looping_nodes :: "graph \<Rightarrow> error + StoryPart list list" where
  "escapable_looping_nodes parts =
     (case looping_nodes parts of
        Inl e \<Rightarrow> Inl e
      | Inr all_loops \<Rightarrow> escapable_loop parts all_loops [])"

fun innescapable_loop :: "graph \<Rightarrow> StoryPart list list \<Rightarrow> StoryPart list list \<Rightarrow> error + StoryPart list list" where
  "innescapable_loop parts [] innescapable = Inr innescapable"
| "innescapable_loop parts (loop # rest) innescapable =
     (case can_escape parts loop of
        Inl e \<Rightarrow> Inl e
      | Inr b \<Rightarrow>
          if \<not> b then innescapable_loop parts rest (innescapable @ [loop])
          else innescapable_loop parts rest innescapable)"

definition innescapable_looping_nodes :: "graph \<Rightarrow> error + StoryPart list list" where
  "innescapable_looping_nodes parts =
     (case looping_nodes parts of
        Inl e \<Rightarrow> Inl e
      | Inr all_loops \<Rightarrow> innescapable_loop parts all_loops [])"

definition good_loops :: "graph \<Rightarrow> StoryPart list list \<Rightarrow> bool" where
  "good_loops parts ls = (\<forall>l \<in> set ls. l \<noteq> [] \<and> set l \<subseteq> set (all_nodes parts))"

subsection \<open>abnormal_paths\<close>

text \<open>
  The variants \<^verbatim>\<open>traverse\<close> continues with from a group, in call order: for every variant
  of the group and every choice that is a key, unless the target is already on the path and
  disallows revisiting, every variant of the target.
\<close>

definition traverse_targets :: "graph \<Rightarrow> string list \<Rightarrow> StoryParts \<Rightarrow> StoryPart list" where
  "traverse_targets parts pathnames this_part =
     concat (map (\<lambda>variant.
       concat (map (\<lambda>choice.
         case map_of parts choice of
           None \<Rightarrow> []
         | Some q \<Rightarrow>
             if choice \<in> set pathnames \<and> \<not> parts_revisit q then [] else variants q)
         (choice_values variant)))
       (variants this_part))"

definition has_valid_choices :: "graph \<Rightarrow> StoryParts \<Rightarrow> bool" where
  "has_valid_choices parts this_part =
     list_ex (\<lambda>variant. list_ex (\<lambda>choice. in_parts parts choice) (choice_values variant))
       (variants this_part)"

text \<open>
  \<^verbatim>\<open>traverse\<close>, with the two collections it updates, \<^verbatim>\<open>all_paths\<close> and
  \<^verbatim>\<open>visited_paths\<close>, passed in and returned.
\<close>

function traverse ::
  "graph \<Rightarrow> StoryPart \<Rightarrow> StoryPart list \<Rightarrow> StoryPart list list \<times> string list set \<Rightarrow>
   error + StoryPart list list \<times> string list set" where
  "traverse parts node path st =
     (let new_path = path @ [node]; pathnames = map pathname new_path in
      if length path > 5 * length parts then Inr st
      else if pathnames \<in> snd st then Inr st
      else
        let visited_paths = insert pathnames (snd st) in
        (case map_of parts (pathname node) of
           None \<Rightarrow> Inl KeyError
         | Some this_part \<Rightarrow>
             if is_end this_part \<or> \<not> has_valid_choices parts this_part
             then Inr (fst st @ [new_path], visited_paths)
             else
               fold (\<lambda>next_variant acc.
                       case acc of
                         Inl e \<Rightarrow> Inl e
                       | Inr st' \<Rightarrow> traverse parts next_variant new_path st')
                 (traverse_targets parts pathnames this_part)
                 (Inr (fst st, visited_paths))))"
  by pat_completeness auto

termination
  by (relation "measure (\<lambda>(parts, node, path, st). 5 * length parts + 1 - length path)") auto

declare traverse.simps [simp del]

text \<open>The first half of \<^verbatim>\<open>abnormal_paths\<close>: the playthroughs enumerated from every start node.\<close>

definition enumerate_paths :: "graph \<Rightarrow> error + StoryPart list list" where
  "enumerate_paths parts =
     (case fold (\<lambda>start acc.
                   case acc of Inl e \<Rightarrow> Inl e | Inr st \<Rightarrow> traverse parts start [] st)
             (starting_nodes parts) (Inr ([], {})) of
        Inl e \<Rightarrow> Inl e
      | Inr st \<Rightarrow> Inr (fst st))"

text \<open>
  The second half. Python's \<^verbatim>\<open>/\<close> on two integers is a floating-point quotient; the model
  takes the exact quotient, which the float equals whenever it is an integer and from which
  it differs by a rounding error far below the distance to the threshold otherwise.
\<close>

definition abnormal_paths :: "graph \<Rightarrow> error + StoryPart list list" where
  "abnormal_paths parts =
     (case enumerate_paths parts of
        Inl e \<Rightarrow> Inl e
      | Inr all_paths \<Rightarrow>
          if all_paths = [] then Inr []
          else
            let average_path = real (sum_list (map length all_paths)) / real (length all_paths)
            in Inr (filter (\<lambda>path. \<bar>real (length path) - average_path\<bar> > 1) all_paths))"

section \<open>Strings and regular expressions\<close>

subsection \<open>The string methods the program calls\<close>

text \<open>\<^verbatim>\<open>str.isspace\<close> of one character, for code points below 256.\<close>

definition is_space :: "char \<Rightarrow> bool" where
  "is_space c =
     (let n = (of_char c :: nat) in (9 \<le> n \<and> n \<le> 13) \<or> (28 \<le> n \<and> n \<le> 32) \<or> n = 133 \<or> n = 160)"


text \<open>\<^verbatim>\<open>s.startswith(p)\<close>.\<close>

fun startswith :: "string \<Rightarrow> string \<Rightarrow> bool" where
  "startswith s [] = True"
| "startswith [] (p # ps) = False"
| "startswith (c # cs) (p # ps) = (c = p \<and> startswith cs ps)"







subsection \<open>The fragment of Python's re that the patterns use\<close>

text \<open>
  Character classes: \<^verbatim>\<open>\d\<close>, \<^verbatim>\<open>\s\<close>, \<^verbatim>\<open>\w\<close>, \<^verbatim>\<open>[^/]\<close>, \<^verbatim>\<open>.\<close> and \<^verbatim>\<open>[0-9a-f]\<close>, for
  code points below 256.
\<close>

datatype cclass = Digit | Space | Word | NotSlash | AnyChar | HexLower

fun in_class :: "cclass \<Rightarrow> char \<Rightarrow> bool" where
  "in_class Digit c = (let n = (of_char c :: nat) in 48 \<le> n \<and> n \<le> 57)"
| "in_class Space c = is_space c"
| "in_class Word c =
     (let n = (of_char c :: nat) in
        (48 \<le> n \<and> n \<le> 57) \<or> (65 \<le> n \<and> n \<le> 90) \<or> n = 95 \<or> (97 \<le> n \<and> n \<le> 122) \<or>
        n = 170 \<or> n = 178 \<or> n = 179 \<or> n = 181 \<or> n = 185 \<or> n = 186 \<or>
        (188 \<le> n \<and> n \<le> 190) \<or> (192 \<le> n \<and> n \<le> 214) \<or> (216 \<le> n \<and> n \<le> 246) \<or>
        (248 \<le> n \<and> n \<le> 255))"
| "in_class NotSlash c = (c \<noteq> CHR ''/'')"
| "in_class AnyChar c = (c \<noteq> CHR 0x0A)"
| "in_class HexLower c =
     (let n = (of_char c :: nat) in (48 \<le> n \<and> n \<le> 57) \<or> (97 \<le> n \<and> n \<le> 102))"

text \<open>
  Patterns: a literal, one character of a class, a greedy \<^verbatim>\<open>+\<close> over a class,
  concatenation, alternation, a greedy \<^verbatim>\<open>?\<close>, a capturing group, \<^verbatim>\<open>^\<close> and \<^verbatim>\<open>$\<close>
  (without \<^verbatim>\<open>MULTILINE\<close>).
\<close>

datatype rx = Lit string | Cls cclass | Plus cclass | Seq rx rx | Alt rx rx | Opt rx | Grp rx
  | Bol | Eol

text \<open>
  A matcher state is the position reached, the text that remains and the text of the
  capturing group, if it took part. \<open>rx_run r st\<close> lists the states in which a match
  of \<open>r\<close> from \<open>st\<close> can end, in the order in which the backtracking matcher tries them:
  the first is the match it reports.
\<close>

type_synonym mstate = "nat \<times> string \<times> string option"

fun rx_run :: "rx \<Rightarrow> mstate \<Rightarrow> mstate list" where
  "rx_run (Lit l) (pos, rest, cap) =
     (if startswith rest l then [(pos + length l, drop (length l) rest, cap)] else [])"
| "rx_run (Cls k) (pos, rest, cap) =
     (case rest of
        [] \<Rightarrow> []
      | c # cs \<Rightarrow> if in_class k c then [(pos + 1, cs, cap)] else [])"
| "rx_run (Plus k) (pos, rest, cap) =
     map (\<lambda>i. (pos + i, drop i rest, cap)) (rev [1..<Suc (length (takeWhile (in_class k) rest))])"
| "rx_run (Seq a b) st = concat (map (rx_run b) (rx_run a st))"
| "rx_run (Alt a b) st = rx_run a st @ rx_run b st"
| "rx_run (Opt a) st = rx_run a st @ [st]"
| "rx_run (Grp a) (pos, rest, cap) =
     map (\<lambda>(pos', rest', cap'). (pos', rest', Some (take (pos' - pos) rest)))
       (rx_run a (pos, rest, cap))"
| "rx_run Bol (pos, rest, cap) = (if pos = 0 then [(pos, rest, cap)] else [])"
| "rx_run Eol (pos, rest, cap) =
     (if rest = [] \<or> rest = [CHR 0x0A] then [(pos, rest, cap)] else [])"

text \<open>\<^verbatim>\<open>regex.match(s)\<close> as a truth value: some match starts at position 0.\<close>

definition rx_match :: "rx \<Rightarrow> string \<Rightarrow> bool" where
  "rx_match r s = (rx_run r (0, s, None) \<noteq> [])"










subsection \<open>The patterns\<close>









definition META_POV_PATTERN :: rx where
  "META_POV_PATTERN = Seq Bol (Seq (Plus Word) Eol)"


definition META_MESSAGE_PATTERN :: rx where
  "META_MESSAGE_PATTERN = Seq (Lit ''message-pov '') (Plus Word)"


definition META_MESSAGE_TITLE_PATTERN :: rx where
  "META_MESSAGE_TITLE_PATTERN = Seq (Lit ''message-title '') (Plus AnyChar)"

section \<open>The marker checks\<close>

subsection \<open>commands_in_text\<close>









subsection \<open>excessive_commands\<close>









subsection \<open>command_metadata\<close>

text \<open>
  The value of \<^verbatim>\<open>getattr(part, property, None)\<close>: the attributes of a \<^verbatim>\<open>StoryPart\<close> are
  its eleven fields, under the names the dataclass declares; any other name gives the
  default, \<^verbatim>\<open>None\<close>.
\<close>

datatype pyattr = AttrNone | AttrStr string | AttrBool bool | AttrPath "string list"
  | AttrDict "(string \<times> string) list"

definition attr_of_option :: "string option \<Rightarrow> pyattr" where
  "attr_of_option v = (case v of None \<Rightarrow> AttrNone | Some s \<Rightarrow> AttrStr s)"

definition getattr :: "StoryPart \<Rightarrow> string \<Rightarrow> pyattr" where
  "getattr part property =
     (if property = ''text'' then AttrStr (text_body part)
      else if property = ''filepath'' then AttrPath (filepath part)
      else if property = ''pathname'' then AttrStr (pathname part)
      else if property = ''pace'' then attr_of_option (pace part)
      else if property = ''colour'' then attr_of_option (colour part)
      else if property = ''effect'' then attr_of_option (effect part)
      else if property = ''pov'' then attr_of_option (pov part)
      else if property = ''messagepov'' then attr_of_option (messagepov part)
      else if property = ''messagetitle'' then attr_of_option (messagetitle part)
      else if property = ''revisit'' then AttrBool (revisit part)
      else if property = ''choices'' then AttrDict (choices part)
      else AttrNone)"

text \<open>Python's truth value of an attribute.\<close>

fun truthy :: "pyattr \<Rightarrow> bool" where
  "truthy AttrNone = False"
| "truthy (AttrStr s) = (s \<noteq> [])"
| "truthy (AttrBool b) = b"
| "truthy (AttrPath p) = True"
| "truthy (AttrDict d) = (d \<noteq> [])"

text \<open>
  The loop of \<^verbatim>\<open>command_metadata\<close> over the nodes in order; \<^verbatim>\<open>regex.match\<close> raises
  \<^verbatim>\<open>TypeError\<close> on a value that is not a string.
\<close>

fun command_metadata_loop :: "StoryPart list \<Rightarrow> rx \<Rightarrow> string \<Rightarrow> StoryPart list \<Rightarrow> error + StoryPart list" where
  "command_metadata_loop [] regex property nodes = Inr nodes"
| "command_metadata_loop (part # rest) regex property nodes =
     (let m = getattr part property in
      if truthy m then
        (case m of
           AttrStr s \<Rightarrow>
             if \<not> rx_match regex s then command_metadata_loop rest regex property (nodes @ [part])
             else command_metadata_loop rest regex property nodes
         | _ \<Rightarrow> Inl TypeError)
      else command_metadata_loop rest regex property nodes)"

definition command_metadata :: "graph \<Rightarrow> rx \<Rightarrow> string \<Rightarrow> error + StoryPart list" where
  "command_metadata parts regex property = command_metadata_loop (all_nodes parts) regex property []"

definition pov_metadata :: "graph \<Rightarrow> error + StoryPart list" where
  "pov_metadata parts = command_metadata parts META_POV_PATTERN ''pov''"

definition message_metadata :: "graph \<Rightarrow> error + StoryPart list" where
  "message_metadata parts = command_metadata parts META_MESSAGE_PATTERN ''message-pov''"

definition message_title_metadata :: "graph \<Rightarrow> error + StoryPart list" where
  "message_title_metadata parts = command_metadata parts META_MESSAGE_TITLE_PATTERN ''message-title''"

section \<open>Ingestion\<close>

subsection \<open>What the YAML loader returns\<close>

text \<open>
  \<^verbatim>\<open>safe_load\<close> belongs to PyYAML, not to the program: it is a parameter, a function from
  the text of the front matter to an error or a value. The values are the ones a YAML
  document of scalars, sequences and mappings loads to; a mapping is the list of its
  entries in order, with distinct keys.
\<close>

datatype pyval = PNone | PBool bool | PInt int | PFloat real | PStr string
  | PList "pyval list" | PDict "(pyval \<times> pyval) list"


text \<open>Python's truth value of a loaded value.\<close>

fun truth_value :: "pyval \<Rightarrow> bool" where
  "truth_value PNone = False"
| "truth_value (PBool b) = b"
| "truth_value (PInt i) = (i \<noteq> 0)"
| "truth_value (PFloat r) = (r \<noteq> 0)"
| "truth_value (PStr s) = (s \<noteq> [])"
| "truth_value (PList xs) = (xs \<noteq> [])"
| "truth_value (PDict d) = (d \<noteq> [])"

text \<open>\<^verbatim>\<open>d.get(key, default)\<close> on a dictionary, for a string key.\<close>

definition dict_get :: "(pyval \<times> pyval) list \<Rightarrow> string \<Rightarrow> pyval \<Rightarrow> pyval" where
  "dict_get d key dflt = (case map_of d (PStr key) of None \<Rightarrow> dflt | Some v \<Rightarrow> v)"

text \<open>
  \<^verbatim>\<open>metadata.get(key, default)\<close> and \<^verbatim>\<open>value.items()\<close> on a loaded value: only a dictionary
  has these methods, any other value raises \<^verbatim>\<open>AttributeError\<close>.
\<close>

definition get :: "pyval \<Rightarrow> string \<Rightarrow> pyval \<Rightarrow> error + pyval" where
  "get metadata key dflt =
     (case metadata of PDict d \<Rightarrow> Inr (dict_get d key dflt) | _ \<Rightarrow> Inl AttributeError)"

definition items_of :: "pyval \<Rightarrow> error + (pyval \<times> pyval) list" where
  "items_of v = (case v of PDict d \<Rightarrow> Inr d | _ \<Rightarrow> Inl AttributeError)"

text \<open>Sequencing: an error ends the computation.\<close>

definition then_do :: "error + 'a \<Rightarrow> ('a \<Rightarrow> error + 'b) \<Rightarrow> error + 'b" where
  "then_do r k = (case r of Inl e \<Rightarrow> Inl e | Inr x \<Rightarrow> k x)"

subsection \<open>parse_markdown\<close>


subsection \<open>find_parts\<close>




text \<open>
  The dataclasses do not check the annotations of their fields: the constructor stores
  what \<^verbatim>\<open>metadata.get\<close> returned, of whatever type the loader built. The records of the
  ingestion therefore hold loaded values.
\<close>

record LoadedPart =
  loaded_choices :: "(pyval \<times> pyval) list"
  loaded_text :: string
  loaded_filepath :: "string list"
  loaded_pathname :: string
  loaded_pace :: pyval
  loaded_colour :: pyval
  loaded_effect :: pyval
  loaded_pov :: pyval
  loaded_revisit :: pyval
  loaded_messagepov :: pyval
  loaded_messagetitle :: pyval



text \<open>The call of the constructor \<^verbatim>\<open>StoryPart\<close>, its arguments evaluated in order.\<close>

definition this_part :: "string list \<Rightarrow> string \<Rightarrow> pyval \<Rightarrow> string \<Rightarrow> error + LoadedPart" where
  "this_part f pname metadata body =
     then_do (get metadata ''choices'' (PDict [])) (\<lambda>c.
     then_do (items_of c) (\<lambda>kvs.
     then_do (get metadata ''pace'' PNone) (\<lambda>pace.
     then_do (get metadata ''colour'' PNone) (\<lambda>colour.
     then_do (get metadata ''effect'' PNone) (\<lambda>effect.
     then_do (get metadata ''pov'' PNone) (\<lambda>pov.
     then_do (get metadata ''revisit'' (PBool True)) (\<lambda>revisit.
     then_do (get metadata ''message-pov'' PNone) (\<lambda>messagepov.
     then_do (get metadata ''message-title'' PNone) (\<lambda>messagetitle.
       Inr \<lparr>loaded_choices = filter (\<lambda>(k, v). truth_value k \<and> truth_value v) kvs,
            loaded_text = body,
            loaded_filepath = f,
            loaded_pathname = pname,
            loaded_pace = pace,
            loaded_colour = colour,
            loaded_effect = effect,
            loaded_pov = pov,
            loaded_revisit = revisit,
            loaded_messagepov = messagepov,
            loaded_messagetitle = messagetitle\<rparr>)))))))))"





section \<open>Example graphs\<close>

definition example_node :: "string \<Rightarrow> string \<Rightarrow> (string \<times> string) list \<Rightarrow> StoryPart" where
  "example_node name file cs =
     \<lparr>text_body = ''Once upon a time.'', filepath = [''story'', file], pathname = name,
      pace = None, colour = None, effect = None, pov = None, messagepov = None,
      messagetitle = None, revisit = True, choices = cs\<rparr>"

definition example_group :: "StoryPart list \<Rightarrow> bool \<Rightarrow> bool \<Rightarrow> StoryParts" where
  "example_group vs s e = \<lparr>variants = vs, is_start = s, is_end = e\<rparr>"

definition example_no_start :: graph where
  "example_no_start =
     [(''a'', example_group [example_node ''a'' ''a.md'' [(''go'', ''b'')]] False False),
      (''b'', example_group [example_node ''b'' ''b.md'' []] False True)]"

definition example_end_dangling :: graph where
  "example_end_dangling =
     [(''a'', example_group [example_node ''a'' ''a.md'' [(''go'', ''b''), (''lost'', ''nowhere'')]] True False),
      (''b'', example_group [example_node ''b'' ''b.md'' [(''on'', ''missing'')]] False True)]"

definition example_two_step :: graph where
  "example_two_step =
     [(''a'', example_group [example_node ''a'' ''a.md'' [(''go'', ''b'')]] True False),
      (''b'', example_group [example_node ''b'' ''b.md'' []] False True)]"

definition example_past_end :: graph where
  "example_past_end =
     [(''a'', example_group [example_node ''a'' ''a.md'' [(''go'', ''b'')]] True False),
      (''b'', example_group [example_node ''b'' ''b.md'' [(''on'', ''c'')]] False True),
      (''c'', example_group [example_node ''c'' ''c.md'' []] False False)]"

definition example_escape :: graph where
  "example_escape =
     [(''s'', example_group [example_node ''s'' ''s.md'' [(''go'', ''a''), (''alt'', ''c'')]] True False),
      (''a'', example_group [example_node ''a'' ''a.md'' [(''on'', ''b'')]] False False),
      (''b'', example_group [example_node ''b'' ''b.md'' [(''back'', ''a''), (''out'', ''e'')]] False False),
      (''c'', example_group [example_node ''c'' ''c.md'' [(''again'', ''c'')]] False False),
      (''e'', example_group [example_node ''e'' ''e.md'' []] False True)]"

definition example_rotated :: graph where
  "example_rotated =
     [(''s'', example_group [example_node ''s'' ''s.md'' [(''left'', ''a''), (''right'', ''b'')]] True False),
      (''a'', example_group [example_node ''a'' ''a.md'' [(''on'', ''b'')]] False False),
      (''b'', example_group [example_node ''b'' ''b.md'' [(''back'', ''a'')]] False False)]"

definition example_variant :: "string \<Rightarrow> string \<Rightarrow> (string \<times> string) list \<Rightarrow> StoryPart" where
  "example_variant name file cs =
     \<lparr>text_body = ''Once upon a time.'', filepath = [''story'', name, file], pathname = name,
      pace = None, colour = None, effect = None, pov = None, messagepov = None,
      messagetitle = None, revisit = True, choices = cs\<rparr>"

definition example_same_file_name :: graph where
  "example_same_file_name =
     [(''s'', example_group [example_variant ''s'' ''1.md'' [(''go'', ''m'')]] True False),
      (''m'', example_group [example_variant ''m'' ''1.md'' [(''on'', ''t'')]] False False),
      (''t'', example_group [example_variant ''t'' ''end.md'' []] False True)]"

definition example_two_lengths :: graph where
  "example_two_lengths =
     [(''s'', example_group [example_node ''s'' ''s.md'' [(''quit'', ''e1''), (''go'', ''a'')]] True False),
      (''a'', example_group [example_node ''a'' ''a.md'' [(''on'', ''b'')]] False False),
      (''b'', example_group [example_node ''b'' ''b.md'' [(''on'', ''c'')]] False False),
      (''c'', example_group [example_node ''c'' ''c.md'' [(''on'', ''e2'')]] False False),
      (''e1'', example_group [example_node ''e1'' ''e1.md'' []] False True),
      (''e2'', example_group [example_node ''e2'' ''e2.md'' []] False True)]"

definition example_self_loop :: graph where
  "example_self_loop =
     [(''a'', example_group [example_node ''a'' ''a.md'' [(''go'', ''a'')]] True False)]"

definition example_message_node :: StoryPart where
  "example_message_node =
     (example_node ''a'' ''a.md'' [])
       \<lparr>pov := Some ''two words'', messagepov := Some ''narrator'',
        messagetitle := Some ''Group chat''\<rparr>"

definition example_bad_message :: graph where
  "example_bad_message = [(''a'', example_group [example_message_node] True True)]"










section \<open>Properties\<close>

lemma starting_nodes_none:
  "\<forall>kp \<in> set parts. \<not> is_start (snd kp) \<Longrightarrow> starting_nodes parts = []"
  by (induction parts rule: starting_nodes.induct) auto

text \<open>
  Claim C9: for every graph with zero start groups, \<^verbatim>\<open>unreachable_nodes\<close> returns every
  node of the graph, the variants of all groups in dictionary order.
\<close>

theorem unreachable_nodes_no_start:
  "\<forall>kp \<in> set parts. \<not> is_start (snd kp) \<Longrightarrow>
   unreachable_nodes parts = Inr (concat (map (\<lambda>kp. variants (snd kp)) parts))"
  by (simp add: unreachable_nodes_def starting_nodes_none all_nodes_concat)

theorem unreachable_nodes_no_start_witness:
  "unreachable_nodes example_no_start =
     Inr [example_node ''a'' ''a.md'' [(''go'', ''b'')], example_node ''b'' ''b.md'' []]"
  using unreachable_nodes_no_start [of example_no_start]
  by (simp add: example_no_start_def example_group_def)

lemma invalid_links_loop_origin:
  "n \<in> set (invalid_links_loop parts items) \<Longrightarrow>
   \<exists>kp \<in> set items. \<not> is_end (snd kp) \<and> n \<in> set (variants (snd kp))"
  by (induction parts items rule: invalid_links_loop.induct) (auto split: if_splits)

text \<open>
  Claim C10: \<^verbatim>\<open>invalid_links\<close> never returns a node of a group whose \<^verbatim>\<open>is_end\<close> flag is
  set, whatever the targets of its choices are.
\<close>

theorem invalid_links_skips_end_groups:
  assumes "wf_graph parts" and "(name, path) \<in> set parts" and "is_end path"
    and "v \<in> set (variants path)"
  shows "v \<notin> set (invalid_links parts)"
proof
  assume "v \<in> set (invalid_links parts)"
  then obtain kp where kp: "kp \<in> set parts" "\<not> is_end (snd kp)" "v \<in> set (variants (snd kp))"
    unfolding invalid_links_def by (blast dest: invalid_links_loop_origin)
  from assms(1) kp(1,3) have "pathname v = fst kp"
    by (auto simp: wf_graph_def list_all_iff)
  moreover from assms(1,2,4) have "pathname v = name"
    by (auto simp: wf_graph_def list_all_iff)
  ultimately have "fst kp = name" by simp
  with assms(1,2) kp(1) have "snd kp = path"
    by (metis wf_graph_def eq_key_imp_eq_value prod.collapse)
  with kp(2) assms(3) show False by simp
qed

theorem invalid_links_skips_end_groups_witness:
  "wf_graph example_end_dangling \<and>
   (''b'', example_group [example_node ''b'' ''b.md'' [(''on'', ''missing'')]] False True)
      \<in> set example_end_dangling \<and>
   is_end (example_group [example_node ''b'' ''b.md'' [(''on'', ''missing'')]] False True) \<and>
   \<not> in_parts example_end_dangling ''missing'' \<and>
   example_node ''b'' ''b.md'' [(''on'', ''missing'')] \<notin> set (invalid_links example_end_dangling) \<and>
   invalid_links example_end_dangling
     = [example_node ''a'' ''a.md'' [(''go'', ''b''), (''lost'', ''nowhere'')]]"
proof -
  have w: "wf_graph example_end_dangling"
    by (simp add: wf_graph_def example_end_dangling_def example_group_def example_node_def)
  have m: "(''b'', example_group [example_node ''b'' ''b.md'' [(''on'', ''missing'')]] False True)
      \<in> set example_end_dangling"
    by (simp add: example_end_dangling_def)
  have e: "is_end (example_group [example_node ''b'' ''b.md'' [(''on'', ''missing'')]] False True)"
    by (simp add: example_group_def)
  have v: "example_node ''b'' ''b.md'' [(''on'', ''missing'')]
      \<in> set (variants (example_group [example_node ''b'' ''b.md'' [(''on'', ''missing'')]] False True))"
    by (simp add: example_group_def)
  have k: "\<not> in_parts example_end_dangling ''missing''"
    by (simp add: in_parts_def example_end_dangling_def)
  have r: "invalid_links example_end_dangling
     = [example_node ''a'' ''a.md'' [(''go'', ''b''), (''lost'', ''nowhere'')]]"
    by (simp add: invalid_links_def example_end_dangling_def example_group_def
        choice_values_def in_parts_def example_node_def)
  from invalid_links_skips_end_groups [OF w m e v] w m e k r show ?thesis by simp
qed

lemma wf_graph_lookup:
  "wf_graph parts \<Longrightarrow> n \<in> set (all_nodes parts) \<Longrightarrow>
   \<exists>p. map_of parts (pathname n) = Some p \<and> n \<in> set (variants p)"
proof -
  assume wf: "wf_graph parts" and n: "n \<in> set (all_nodes parts)"
  from n obtain kp where kp: "kp \<in> set parts" "n \<in> set (variants (snd kp))"
    by (auto simp: all_nodes_concat)
  with wf have "pathname n = fst kp"
    by (auto simp: wf_graph_def list_all_iff)
  moreover from wf kp(1) have "map_of parts (fst kp) = Some (snd kp)"
    by (simp add: wf_graph_def)
  ultimately show ?thesis using kp(2) by auto
qed

lemma unreachable_loop_invariant:
  "wf_graph parts \<Longrightarrow> distinct_file_names parts \<Longrightarrow>
     set stack \<subseteq> set (all_nodes parts) \<Longrightarrow> expanded parts stack visited \<Longrightarrow>
     \<exists>V. unreachable_loop parts stack visited = Inr V \<and> expanded parts [] V \<and>
         visited \<subseteq> V \<and> node_names stack \<subseteq> V"
proof (induction parts stack visited rule: unreachable_loop.induct)
  case (1 parts stack visited)
  note wf = "1.prems"(1) and dn = "1.prems"(2)
  show ?case
  proof (cases "stack = []")
    case True
    with "1.prems"(4) show ?thesis by (simp add: node_names_def)
  next
    case ne: False
    define node where "node = last stack"
    define stack' where "stack' = butlast stack"
    have stack: "stack = stack' @ [node]"
      using ne by (simp add: node_def stack'_def)
    have node_in: "node \<in> set (all_nodes parts)"
      using "1.prems"(3) stack by auto
    have sub': "set stack' \<subseteq> set (all_nodes parts)"
      using "1.prems"(3) stack by auto
    show ?thesis
    proof (cases "path_name (filepath node) \<in> visited")
      case vis: True
      have e: "expanded parts stack' visited"
        using "1.prems"(4) vis unfolding expanded_def stack by auto
      from "1.IH"(1)[OF ne node_def stack'_def vis wf dn sub' e]
      obtain V where V: "unreachable_loop parts stack' visited = Inr V" "expanded parts [] V"
        "visited \<subseteq> V" "node_names stack' \<subseteq> V"
        by auto
      have "unreachable_loop parts stack visited = Inr V"
        using ne vis V(1) unfolding node_def stack'_def
        by (subst unreachable_loop.simps) (simp add: Let_def)
      moreover have "node_names stack \<subseteq> V"
        using V(3,4) vis unfolding stack node_names_def by auto
      ultimately show ?thesis using V by blast
    next
      case nvis: False
      define visited' where "visited' = insert (path_name (filepath node)) visited"
      from wf_graph_lookup[OF wf node_in] obtain p where
        p: "map_of parts (pathname node) = Some p" "node \<in> set (variants p)" by blast
      have inj: "\<And>n. n \<in> set (all_nodes parts) \<Longrightarrow>
          path_name (filepath n) = path_name (filepath node) \<Longrightarrow> n = node"
        using dn node_in unfolding distinct_file_names_def
        by (metis distinct_map inj_onD)
      show ?thesis
      proof (cases "is_end p")
        case en: True
        have e: "expanded parts stack' visited'"
          unfolding expanded_def
        proof (intro ballI impI allI)
          fix n q m
          assume n: "n \<in> set (all_nodes parts)" "path_name (filepath n) \<in> visited'"
            and q: "map_of parts (pathname n) = Some q" "\<not> is_end q"
            and m: "m \<in> set (push_choices parts (choice_values n))"
          have "n \<noteq> node" using q p en by auto
          with inj[OF n(1)] n(2) have "path_name (filepath n) \<in> visited"
            by (auto simp: visited'_def)
          with "1.prems"(4) n(1) q m have "path_name (filepath m) \<in> visited \<or> m \<in> set stack"
            unfolding expanded_def by blast
          then show "path_name (filepath m) \<in> visited' \<or> m \<in> set stack'"
            unfolding stack visited'_def by auto
        qed
        from "1.IH"(2)[OF ne node_def stack'_def nvis visited'_def p(1) en wf dn sub' e]
        obtain V where V: "unreachable_loop parts stack' visited' = Inr V" "expanded parts [] V"
          "visited' \<subseteq> V" "node_names stack' \<subseteq> V"
          by auto
        have "unreachable_loop parts stack visited = Inr V"
          using ne nvis V(1) p(1) en unfolding node_def stack'_def visited'_def
          by (subst unreachable_loop.simps) (simp add: Let_def)
        moreover have "node_names stack \<subseteq> V" "visited \<subseteq> V"
          using V(3,4) unfolding stack node_names_def visited'_def by auto
        ultimately show ?thesis using V by blast
      next
        case nen: False
        define stack'' where "stack'' = stack' @ push_choices parts (choice_values node)"
        have sub'': "set stack'' \<subseteq> set (all_nodes parts)"
          using sub' push_choices_subset[of parts "choice_values node"] by (auto simp: stack''_def)
        have e: "expanded parts stack'' visited'"
          unfolding expanded_def
        proof (intro ballI impI allI)
          fix n q m
          assume n: "n \<in> set (all_nodes parts)" "path_name (filepath n) \<in> visited'"
            and q: "map_of parts (pathname n) = Some q" "\<not> is_end q"
            and m: "m \<in> set (push_choices parts (choice_values n))"
          show "path_name (filepath m) \<in> visited' \<or> m \<in> set stack''"
          proof (cases "n = node")
            case True
            with m show ?thesis by (simp add: stack''_def)
          next
            case False
            with inj[OF n(1)] n(2) have "path_name (filepath n) \<in> visited"
              by (auto simp: visited'_def)
            with "1.prems"(4) n(1) q m have "path_name (filepath m) \<in> visited \<or> m \<in> set stack"
              unfolding expanded_def by blast
            then show ?thesis
              unfolding stack visited'_def stack''_def by auto
          qed
        qed
        from "1.IH"(3)[OF ne node_def stack'_def nvis visited'_def p(1) nen wf dn sub''[unfolded stack''_def] e[unfolded stack''_def]]
        obtain V where V: "unreachable_loop parts stack'' visited' = Inr V" "expanded parts [] V"
          "visited' \<subseteq> V" "node_names stack'' \<subseteq> V"
          by (auto simp: stack''_def)
        have "unreachable_loop parts stack visited = Inr V"
          using ne nvis V(1) p(1) nen unfolding node_def stack'_def visited'_def stack''_def
          by (subst unreachable_loop.simps) (simp add: Let_def)
        moreover have "node_names stack \<subseteq> V" "visited \<subseteq> V"
          using V(3,4) unfolding stack node_names_def visited'_def stack''_def by auto
        ultimately show ?thesis using V by blast
      qed
    qed
  qed
qed

lemma starting_nodes_variants:
  "(k, p) \<in> set parts \<Longrightarrow> is_start p \<Longrightarrow> set (variants p) \<subseteq> set (starting_nodes parts)"
  by (induction parts rule: starting_nodes.induct) auto

lemma starting_nodes_subset: "set (starting_nodes parts) \<subseteq> set (all_nodes parts)"
  by (induction parts rule: starting_nodes.induct) auto

lemma push_choices_variants:
  "c \<in> set cs \<Longrightarrow> map_of parts c = Some q \<Longrightarrow> set (variants q) \<subseteq> set (push_choices parts cs)"
  by (induction cs) (auto split: option.splits)

lemma reachable_without_start_nodes:
  assumes "starting_nodes parts = []"
  shows "reachable_before_end parts k \<Longrightarrow> \<exists>p. map_of parts k = Some p \<and> variants p = []"
proof (induction rule: reachable_before_end.induct)
  case (rb_start k p)
  from rb_start(1) have "(k, p) \<in> set parts" by (rule map_of_SomeD)
  with starting_nodes_variants[OF this rb_start(2)] assms rb_start(1) show ?case by simp
next
  case (rb_step k p v c)
  then show ?case by auto
qed

lemma reachable_visited:
  assumes wf: "wf_graph parts" and ex: "expanded parts [] V"
    and st: "node_names (starting_nodes parts) \<subseteq> V"
  shows "reachable_before_end parts k \<Longrightarrow>
     \<forall>p. map_of parts k = Some p \<longrightarrow> (\<forall>v \<in> set (variants p). path_name (filepath v) \<in> V)"
proof (induction rule: reachable_before_end.induct)
  case (rb_start k p)
  show ?case
  proof (intro allI impI ballI)
    fix q v assume "map_of parts k = Some q" "v \<in> set (variants q)"
    with rb_start have "v \<in> set (starting_nodes parts)"
      using starting_nodes_variants[of k p parts] by (auto dest: map_of_SomeD)
    with st show "path_name (filepath v) \<in> V" by (auto simp: node_names_def)
  qed
next
  case (rb_step k p v c)
  show ?case
  proof (intro allI impI ballI)
    fix q m assume q: "map_of parts c = Some q" and m: "m \<in> set (variants q)"
    from rb_step.hyps(2) have kp: "(k, p) \<in> set parts" by (rule map_of_SomeD)
    with rb_step.hyps(4) have vin: "v \<in> set (all_nodes parts)"
      by (force simp: all_nodes_concat)
    from wf kp rb_step.hyps(4) have "pathname v = k"
      by (auto simp: wf_graph_def list_all_iff)
    with rb_step.hyps(2) have look: "map_of parts (pathname v) = Some p" by simp
    from rb_step.IH rb_step.hyps(2) rb_step.hyps(4) have vis: "path_name (filepath v) \<in> V" by blast
    from push_choices_variants[OF rb_step.hyps(5) q] m
    have "m \<in> set (push_choices parts (choice_values v))" by blast
    with ex vin vis look rb_step.hyps(3) show "path_name (filepath m) \<in> V"
      unfolding expanded_def by fastforce
  qed
qed

text \<open>
  Where the traversal is complete: in a well-formed graph whose nodes have pairwise
  distinct file names, if every group is reachable from a start group by valid choice
  links that leave groups which are not end groups, \<^verbatim>\<open>unreachable_nodes\<close> returns the
  empty list.
\<close>

theorem unreachable_nodes_all_reachable:
  assumes wf: "wf_graph parts" and dn: "distinct_file_names parts"
    and reach: "\<forall>k \<in> set (map fst parts). reachable_before_end parts k"
  shows "unreachable_nodes parts = Inr []"
proof (cases "starting_nodes parts = []")
  case True
  have "variants (snd kp) = []" if "kp \<in> set parts" for kp
  proof -
    from that reach have "reachable_before_end parts (fst kp)" by simp
    from reachable_without_start_nodes[OF True this]
    obtain p where "map_of parts (fst kp) = Some p" "variants p = []" by blast
    moreover from wf that have "map_of parts (fst kp) = Some (snd kp)"
      by (simp add: wf_graph_def)
    ultimately show ?thesis by simp
  qed
  then have "all_nodes parts = []" by (simp add: all_nodes_concat)
  with True show ?thesis by (simp add: unreachable_nodes_def)
next
  case False
  have "expanded parts (starting_nodes parts) {}" by (simp add: expanded_def)
  from unreachable_loop_invariant[OF wf dn starting_nodes_subset this]
  obtain V where V: "unreachable_loop parts (starting_nodes parts) {} = Inr V"
    "expanded parts [] V" "node_names (starting_nodes parts) \<subseteq> V" by blast
  have "path_name (filepath n) \<in> V" if "n \<in> set (all_nodes parts)" for n
  proof -
    from that obtain kp where kp: "kp \<in> set parts" "n \<in> set (variants (snd kp))"
      by (auto simp: all_nodes_concat)
    from kp(1) reach have r: "reachable_before_end parts (fst kp)" by simp
    from wf kp(1) have "map_of parts (fst kp) = Some (snd kp)" by (simp add: wf_graph_def)
    with reachable_visited[OF wf V(2,3) r] kp(2) show ?thesis by blast
  qed
  then have "filter (\<lambda>node. path_name (filepath node) \<notin> V) (all_nodes parts) = []"
    by (simp add: filter_empty_conv)
  with False V(1) show ?thesis by (simp add: unreachable_nodes_def Let_def)
qed

theorem unreachable_nodes_all_reachable_witness:
  "wf_graph example_two_step \<and> distinct_file_names example_two_step \<and>
   reachable_before_end example_two_step ''a'' \<and> reachable_before_end example_two_step ''b'' \<and>
   map fst example_two_step = [''a'', ''b''] \<and>
   unreachable_nodes example_two_step = Inr []"
proof -
  have w: "wf_graph example_two_step"
    by (simp add: wf_graph_def example_two_step_def example_group_def example_node_def)
  have d: "distinct_file_names example_two_step"
    by (simp add: distinct_file_names_def example_two_step_def example_group_def
        example_node_def path_name_def)
  have a: "reachable_before_end example_two_step ''a''"
    by (rule rb_start[where p = "example_group [example_node ''a'' ''a.md'' [(''go'', ''b'')]] True False"])
       (simp_all add: example_two_step_def example_group_def)
  have b: "reachable_before_end example_two_step ''b''"
    by (rule rb_step[OF a, where p = "example_group [example_node ''a'' ''a.md'' [(''go'', ''b'')]] True False"
          and v = "example_node ''a'' ''a.md'' [(''go'', ''b'')]"])
       (simp_all add: example_two_step_def example_group_def example_node_def choice_values_def
          in_parts_def)
  have k: "map fst example_two_step = [''a'', ''b'']"
    by (simp add: example_two_step_def)
  have r: "\<forall>k \<in> set (map fst example_two_step). reachable_before_end example_two_step k"
    using a b by (simp add: k)
  from unreachable_nodes_all_reachable[OF w d r] w d a b k show ?thesis by simp
qed

text \<open>
  The guard on end groups: group c is reachable via valid links through the end group b
  only, and is reported unreachable, because the traversal does not expand an end group.
\<close>

theorem unreachable_nodes_past_end_counterexample:
  "wf_graph example_past_end \<and> distinct_file_names example_past_end \<and>
   map fst example_past_end = [''a'', ''b'', ''c''] \<and>
   reachable_via_valid_links example_past_end ''a'' \<and>
   reachable_via_valid_links example_past_end ''b'' \<and>
   reachable_via_valid_links example_past_end ''c'' \<and>
   unreachable_nodes example_past_end = Inr [example_node ''c'' ''c.md'' []]"
proof -
  have w: "wf_graph example_past_end"
    by (simp add: wf_graph_def example_past_end_def example_group_def example_node_def)
  have d: "distinct_file_names example_past_end"
    by (simp add: distinct_file_names_def example_past_end_def example_group_def
        example_node_def path_name_def)
  have k: "map fst example_past_end = [''a'', ''b'', ''c'']"
    by (simp add: example_past_end_def)
  have a: "reachable_via_valid_links example_past_end ''a''"
    by (rule rv_start[where p = "example_group [example_node ''a'' ''a.md'' [(''go'', ''b'')]] True False"])
       (simp_all add: example_past_end_def example_group_def)
  have b: "reachable_via_valid_links example_past_end ''b''"
    by (rule rv_step[OF a, where p = "example_group [example_node ''a'' ''a.md'' [(''go'', ''b'')]] True False"
          and v = "example_node ''a'' ''a.md'' [(''go'', ''b'')]"])
       (simp_all add: example_past_end_def example_group_def example_node_def choice_values_def
          in_parts_def)
  have c: "reachable_via_valid_links example_past_end ''c''"
    by (rule rv_step[OF b, where p = "example_group [example_node ''b'' ''b.md'' [(''on'', ''c'')]] False True"
          and v = "example_node ''b'' ''b.md'' [(''on'', ''c'')]"])
       (simp_all add: example_past_end_def example_group_def example_node_def choice_values_def
          in_parts_def)
  have u: "unreachable_nodes example_past_end = Inr [example_node ''c'' ''c.md'' []]"
    by (simp add: unreachable_nodes_def example_past_end_def example_group_def example_node_def
        unreachable_loop.simps choice_values_def path_name_def Let_def)
  from w d k a b c u show ?thesis by simp
qed

lemma variants_in_all_nodes:
  "map_of parts k = Some q \<Longrightarrow> set (variants q) \<subseteq> set (all_nodes parts)"
  by (force dest: map_of_SomeD simp: all_nodes_concat)

lemma variants_in_all_nodes':
  "Some q = map_of parts k \<Longrightarrow> set (variants q) \<subseteq> set (all_nodes parts)"
  using variants_in_all_nodes[of parts k q] by simp

lemma search_targets_subset: "set (search_targets parts an cs) \<subseteq> set (all_nodes parts)"
  unfolding search_targets_def
  by (auto split: option.splits if_splits dest: variants_in_all_nodes variants_in_all_nodes')

lemma escape_targets_subset:
  "map_of parts k = Some p \<Longrightarrow> set (escape_targets parts lnames p) \<subseteq> set (all_nodes parts)"
  unfolding escape_targets_def
  by (auto split: option.splits if_splits dest: variants_in_all_nodes variants_in_all_nodes')

lemma depth_search_total:
  "wf_graph parts \<Longrightarrow> node \<in> set (all_nodes parts) \<Longrightarrow> set ancestors \<subseteq> set (all_nodes parts) \<Longrightarrow>
   good_loops parts loops \<Longrightarrow>
   \<exists>ls. depth_search parts node ancestors loops = Inr ls \<and> good_loops parts ls"
proof (induction parts node ancestors loops rule: depth_search.induct)
  case (1 parts node ancestors loops)
  note wf = "1.prems"(1) and nin = "1.prems"(2) and anc = "1.prems"(3) and good = "1.prems"(4)
  show ?case
  proof (cases "pathname node \<in> set (map pathname ancestors)")
    case True
    then have "depth_search parts node ancestors loops = Inr (loops @ [ancestors @ [node]])"
      by (subst depth_search.simps) simp
    moreover have "good_loops parts (loops @ [ancestors @ [node]])"
      using good nin anc by (auto simp: good_loops_def)
    ultimately show ?thesis by blast
  next
    case nl: False
    from wf_graph_lookup[OF wf nin] obtain p where p: "map_of parts (pathname node) = Some p"
      by blast
    show ?thesis
    proof (cases "is_end p \<or> length ancestors > 2 * length parts")
      case True
      then have "depth_search parts node ancestors loops = Inr loops"
        using nl p by (subst depth_search.simps) auto
      with good show ?thesis by blast
    next
      case False
      then have ne: "\<not> is_end p" and nb: "\<not> length ancestors > 2 * length parts" by auto
      define targets where "targets = search_targets parts (map pathname ancestors) (choice_values node)"
      define step where "step = (\<lambda>variant acc.
                       case acc of
                         Inl e \<Rightarrow> Inl e
                       | Inr ls \<Rightarrow> depth_search parts variant (ancestors @ [node]) ls)"
      have anc': "set (ancestors @ [node]) \<subseteq> set (all_nodes parts)"
        using anc nin by simp
      have run: "\<exists>ls. fold step ts (Inr acc) = Inr ls \<and> good_loops parts ls"
        if "set ts \<subseteq> set targets" "good_loops parts acc" for ts acc
        using that
      proof (induction ts arbitrary: acc)
        case Nil
        then show ?case by simp
      next
        case (Cons t ts)
        from Cons.prems(1) have tin: "t \<in> set targets" by simp
        then have "t \<in> set (all_nodes parts)"
          using search_targets_subset unfolding targets_def by blast
        from "1.IH"[OF nl p ne nb tin[unfolded targets_def] wf this anc' Cons.prems(2)]
        obtain ls where ls: "depth_search parts t (ancestors @ [node]) acc = Inr ls"
          "good_loops parts ls" by blast
        from Cons.IH[OF _ ls(2)] Cons.prems(1)
        obtain ls' where "fold step ts (Inr ls) = Inr ls'" "good_loops parts ls'" by auto
        then show ?case using ls(1) by (simp add: step_def)
      qed
      from run[OF subset_refl good] obtain ls where
        ls: "fold step targets (Inr loops) = Inr ls" "good_loops parts ls" by blast
      have "depth_search parts node ancestors loops = Inr ls"
        using nl p ne nb ls(1) unfolding targets_def step_def
        by (subst depth_search.simps) simp
      with ls(2) show ?thesis by blast
    qed
  qed
qed

lemma index_of_less: "x \<in> set names \<Longrightarrow> index_of names x < length names"
  unfolding index_of_def by (induction names) auto

lemma canonical_looping_result:
  assumes "loop \<noteq> []"
  shows "canonical_looping loop =
     Inr (drop (index_of (map pathname loop) (pathname (last loop))) loop,
          drop (index_of (map pathname loop) (pathname (last loop))) (map pathname loop))"
proof -
  define names where "names = map pathname loop"
  define start where "start = index_of names (last names)"
  have ne: "names \<noteq> []" using assms by (simp add: names_def)
  then have "last names \<in> set names" by simp
  then have lt: "start < length names" unfolding start_def by (rule index_of_less)
  have last: "last names = pathname (last loop)"
    using assms by (simp add: names_def last_map)
  have rot: "map (\<lambda>i. drop i (drop start names) @ take i (drop start names))
      [0..<length (drop start names)] \<noteq> []"
    using lt by simp
  have nf: "find (\<lambda>i. PyTuple m = PyList l) is = None" for m l and "is" :: "nat list"
    by (induction "is") auto
  show ?thesis
    using assms rot nf
    unfolding canonical_looping_def Let_def names_def[symmetric] start_def[symmetric]
    by (simp add: start_def last[symmetric] names_def)
qed

lemma unique_loops_total:
  "good_loops parts loops \<Longrightarrow> good_loops' parts unique \<Longrightarrow>
   \<exists>ls. unique_loops loops unique unique_name = Inr ls \<and> good_loops' parts ls"
  if "good_loops' = (\<lambda>parts ls. \<forall>l \<in> set ls. set l \<subseteq> set (all_nodes parts))"
proof (induction loops unique unique_name rule: unique_loops.induct)
  case (1 unique unique_name)
  then show ?case by simp
next
  case (2 loop rest unique unique_name)
  from "2.prems"(1) have ne: "loop \<noteq> []" and sub: "set loop \<subseteq> set (all_nodes parts)"
    and rest: "good_loops parts rest"
    by (auto simp: good_loops_def)
  define start where "start = index_of (map pathname loop) (pathname (last loop))"
  have can: "canonical_looping loop = Inr (drop start loop, drop start (map pathname loop))"
    using canonical_looping_result[OF ne] by (simp add: start_def)
  have g: "good_loops' parts (unique @ [drop start loop])"
    using "2.prems"(2) sub unfolding that by (auto dest: in_set_dropD)
  show ?case
  proof (cases "drop start (map pathname loop) \<notin> set unique_name")
    case True
    from "2.IH"(1)[OF can refl True rest g] True can show ?thesis by simp
  next
    case False
    from "2.IH"(2)[OF can refl False rest "2.prems"(2)] False can show ?thesis by simp
  qed
qed

lemma first_success_total:
  "(\<And>x. x \<in> set xs \<Longrightarrow> \<exists>b. f x = Inr b) \<Longrightarrow> \<exists>b. first_success f xs = Inr b"
proof (induction xs)
  case Nil
  have "first_success f [] = Inr False" by simp
  then show ?case by (rule exI)
next
  case (Cons x xs)
  from Cons.prems[of x] obtain b where "f x = Inr b" by auto
  moreover from Cons.IH Cons.prems obtain b' where "first_success f xs = Inr b'" by auto
  ultimately have "first_success f (x # xs) = Inr (if b then True else b')" by simp
  then show ?case by (rule exI)
qed

lemma search_total:
  "wf_graph parts \<Longrightarrow> node \<in> set (all_nodes parts) \<Longrightarrow>
   \<exists>b. search parts loop_names node visited = Inr b"
proof (induction parts loop_names node visited rule: search.induct)
  case (1 parts loop_names node visited)
  from wf_graph_lookup[OF "1.prems"] obtain p where p: "map_of parts (pathname node) = Some p"
    by blast
  show ?case
  proof (cases "is_end p \<or> pathname node \<in> visited")
    case True
    with p show ?thesis by (subst search.simps) auto
  next
    case False
    then have ne: "\<not> is_end p" and nv: "pathname node \<notin> visited" by auto
    have "\<exists>b. search parts loop_names v (visited \<union> {pathname node}) = Inr b"
      if "v \<in> set (escape_targets parts loop_names p)" for v
    proof -
      from that escape_targets_subset[OF p] have "v \<in> set (all_nodes parts)" by blast
      from "1.IH"[OF p ne nv that "1.prems"(1) this] show ?thesis .
    qed
    from first_success_total[of "escape_targets parts loop_names p"
        "\<lambda>v. search parts loop_names v (visited \<union> {pathname node})", OF this]
    show ?thesis using p ne nv by (subst search.simps) simp
  qed
qed

lemma can_escape_total:
  "wf_graph parts \<Longrightarrow> set loop \<subseteq> set (all_nodes parts) \<Longrightarrow> \<exists>b. can_escape parts loop = Inr b"
  unfolding can_escape_def Let_def
  by (rule first_success_total) (auto intro: search_total)

lemma escapable_loop_filter:
  "(\<And>l. l \<in> set loops \<Longrightarrow> \<exists>b. can_escape parts l = Inr b) \<Longrightarrow>
   escapable_loop parts loops kept = Inr (kept @ filter (\<lambda>l. can_escape parts l = Inr True) loops)"
proof (induction loops arbitrary: kept)
  case Nil
  then show ?case by simp
next
  case (Cons l loops)
  from Cons.prems[of l] obtain b where b: "can_escape parts l = Inr b" by auto
  from Cons.IH Cons.prems have "\<And>k. escapable_loop parts loops k
      = Inr (k @ filter (\<lambda>l. can_escape parts l = Inr True) loops)" by simp
  with b show ?case by simp
qed

lemma innescapable_loop_filter:
  "(\<And>l. l \<in> set loops \<Longrightarrow> \<exists>b. can_escape parts l = Inr b) \<Longrightarrow>
   innescapable_loop parts loops kept
     = Inr (kept @ filter (\<lambda>l. can_escape parts l \<noteq> Inr True) loops)"
proof (induction loops arbitrary: kept)
  case Nil
  then show ?case by simp
next
  case (Cons l loops)
  from Cons.prems[of l] obtain b where b: "can_escape parts l = Inr b" by auto
  from Cons.IH Cons.prems have "\<And>k. innescapable_loop parts loops k
      = Inr (k @ filter (\<lambda>l. can_escape parts l \<noteq> Inr True) loops)" by simp
  with b show ?case by simp
qed

lemma looping_nodes_total:
  assumes wf: "wf_graph parts"
  shows "\<exists>ls. looping_nodes parts = Inr ls \<and> (\<forall>l \<in> set ls. set l \<subseteq> set (all_nodes parts))"
proof -
  define step where "step = (\<lambda>node acc.
                   case acc of Inl e \<Rightarrow> Inl e | Inr ls \<Rightarrow> depth_search parts node [] ls)"
  have run: "\<exists>ls. fold step ns (Inr acc) = Inr ls \<and> good_loops parts ls"
    if "set ns \<subseteq> set (all_nodes parts)" "good_loops parts acc" for ns acc
    using that
  proof (induction ns arbitrary: acc)
    case Nil
    then show ?case by simp
  next
    case (Cons n ns)
    from depth_search_total[OF wf, of n "[]" acc] Cons.prems
    obtain ls where ls: "depth_search parts n [] acc = Inr ls" "good_loops parts ls" by auto
    from Cons.IH[OF _ ls(2)] Cons.prems(1)
    obtain ls' where "fold step ns (Inr ls) = Inr ls'" "good_loops parts ls'" by auto
    then show ?case using ls(1) by (simp add: step_def)
  qed
  have "good_loops parts []" by (simp add: good_loops_def)
  from run[OF starting_nodes_subset this] obtain loops where
    loops: "fold step (starting_nodes parts) (Inr []) = Inr loops" "good_loops parts loops"
    by blast
  from unique_loops_total[OF refl loops(2), of "[]" "[]"]
  obtain ls where "unique_loops loops [] [] = Inr ls" "\<forall>l \<in> set ls. set l \<subseteq> set (all_nodes parts)"
    by auto
  with loops(1) show ?thesis
    unfolding looping_nodes_def step_def by simp
qed

text \<open>
  Claim C1: for every graph (well-formed, as \<^verbatim>\<open>find_parts\<close> builds it) the three functions
  return, and the lists of \<^verbatim>\<open>escapable_looping_nodes\<close> and \<^verbatim>\<open>innescapable_looping_nodes\<close>
  partition the list of \<^verbatim>\<open>looping_nodes\<close>: together they hold every loop found, each as
  often as it was found, and no loop is in both.
\<close>

theorem escapable_innescapable_partition:
  assumes "wf_graph parts"
  shows "\<exists>loops esc inesc.
     looping_nodes parts = Inr loops \<and> escapable_looping_nodes parts = Inr esc \<and>
     innescapable_looping_nodes parts = Inr inesc \<and>
     set esc \<union> set inesc = set loops \<and> set esc \<inter> set inesc = {} \<and>
     mset esc + mset inesc = mset loops"
proof -
  from looping_nodes_total[OF assms] obtain loops where
    loops: "looping_nodes parts = Inr loops" "\<forall>l \<in> set loops. set l \<subseteq> set (all_nodes parts)"
    by blast
  have tot: "\<exists>b. can_escape parts l = Inr b" if "l \<in> set loops" for l
    using can_escape_total[OF assms] loops(2) that by blast
  define P where "P = (\<lambda>l. can_escape parts l = Inr True)"
  have esc: "escapable_looping_nodes parts = Inr (filter P loops)"
    using escapable_loop_filter[of loops parts "[]", OF tot] loops(1)
    by (simp add: escapable_looping_nodes_def P_def)
  have inesc: "innescapable_looping_nodes parts = Inr (filter (\<lambda>l. \<not> P l) loops)"
    using innescapable_loop_filter[of loops parts "[]", OF tot] loops(1)
    by (simp add: innescapable_looping_nodes_def P_def)
  have "set (filter P loops) \<union> set (filter (\<lambda>l. \<not> P l) loops) = set loops" by auto
  moreover have "set (filter P loops) \<inter> set (filter (\<lambda>l. \<not> P l) loops) = {}" by auto
  moreover have "mset (filter P loops) + mset (filter (\<lambda>l. \<not> P l) loops) = mset loops"
    by simp
  ultimately show ?thesis using loops(1) esc inesc by blast
qed

lemma example_escape_loops:
  "looping_nodes example_escape =
     Inr [[example_node ''a'' ''a.md'' [(''on'', ''b'')],
           example_node ''b'' ''b.md'' [(''back'', ''a''), (''out'', ''e'')],
           example_node ''a'' ''a.md'' [(''on'', ''b'')]],
          [example_node ''c'' ''c.md'' [(''again'', ''c'')],
           example_node ''c'' ''c.md'' [(''again'', ''c'')]]]"
  by (simp add: looping_nodes_def example_escape_def example_group_def example_node_def
      depth_search.simps search_targets_def choice_values_def parts_revisit_def
      canonical_looping_result index_of_def)

lemma example_escape_escapable:
  "escapable_looping_nodes example_escape =
     Inr [[example_node ''a'' ''a.md'' [(''on'', ''b'')],
           example_node ''b'' ''b.md'' [(''back'', ''a''), (''out'', ''e'')],
           example_node ''a'' ''a.md'' [(''on'', ''b'')]]]"
  unfolding escapable_looping_nodes_def example_escape_loops
  by (simp add: can_escape_def example_escape_def example_group_def example_node_def
      search.simps escape_targets_def choice_values_def)

lemma example_escape_innescapable:
  "innescapable_looping_nodes example_escape =
     Inr [[example_node ''c'' ''c.md'' [(''again'', ''c'')],
           example_node ''c'' ''c.md'' [(''again'', ''c'')]]]"
  unfolding innescapable_looping_nodes_def example_escape_loops
  by (simp add: can_escape_def example_escape_def example_group_def example_node_def
      search.simps escape_targets_def choice_values_def)

theorem escapable_innescapable_partition_witness:
  "wf_graph example_escape \<and>
   looping_nodes example_escape =
     Inr [[example_node ''a'' ''a.md'' [(''on'', ''b'')],
           example_node ''b'' ''b.md'' [(''back'', ''a''), (''out'', ''e'')],
           example_node ''a'' ''a.md'' [(''on'', ''b'')]],
          [example_node ''c'' ''c.md'' [(''again'', ''c'')],
           example_node ''c'' ''c.md'' [(''again'', ''c'')]]] \<and>
   escapable_looping_nodes example_escape =
     Inr [[example_node ''a'' ''a.md'' [(''on'', ''b'')],
           example_node ''b'' ''b.md'' [(''back'', ''a''), (''out'', ''e'')],
           example_node ''a'' ''a.md'' [(''on'', ''b'')]]] \<and>
   innescapable_looping_nodes example_escape =
     Inr [[example_node ''c'' ''c.md'' [(''again'', ''c'')],
           example_node ''c'' ''c.md'' [(''again'', ''c'')]]]"
proof -
  have w: "wf_graph example_escape"
    by (simp add: wf_graph_def example_escape_def example_group_def example_node_def)
  from escapable_innescapable_partition[OF w] w
    example_escape_loops example_escape_escapable example_escape_innescapable
  show ?thesis by simp
qed

text \<open>
  Claim C2 at a failing input. The cycle between groups a and b is found twice, once
  entered at a and once at b. \<^verbatim>\<open>canonical_looping\<close> returns each sequence cut at the
  repeated group and not rotated any further, so the two rotations of one cycle get the
  different name sequences a, b, a and b, a, b, and \<^verbatim>\<open>looping_nodes\<close> keeps both.
\<close>

theorem canonical_looping_keeps_rotations:
  "canonical_looping
     [example_node ''s'' ''s.md'' [(''left'', ''a''), (''right'', ''b'')],
      example_node ''a'' ''a.md'' [(''on'', ''b'')],
      example_node ''b'' ''b.md'' [(''back'', ''a'')],
      example_node ''a'' ''a.md'' [(''on'', ''b'')]]
     = Inr ([example_node ''a'' ''a.md'' [(''on'', ''b'')],
             example_node ''b'' ''b.md'' [(''back'', ''a'')],
             example_node ''a'' ''a.md'' [(''on'', ''b'')]], [''a'', ''b'', ''a'']) \<and>
   canonical_looping
     [example_node ''s'' ''s.md'' [(''left'', ''a''), (''right'', ''b'')],
      example_node ''b'' ''b.md'' [(''back'', ''a'')],
      example_node ''a'' ''a.md'' [(''on'', ''b'')],
      example_node ''b'' ''b.md'' [(''back'', ''a'')]]
     = Inr ([example_node ''b'' ''b.md'' [(''back'', ''a'')],
             example_node ''a'' ''a.md'' [(''on'', ''b'')],
             example_node ''b'' ''b.md'' [(''back'', ''a'')]], [''b'', ''a'', ''b'']) \<and>
   looping_nodes example_rotated =
     Inr [[example_node ''a'' ''a.md'' [(''on'', ''b'')],
           example_node ''b'' ''b.md'' [(''back'', ''a'')],
           example_node ''a'' ''a.md'' [(''on'', ''b'')]],
          [example_node ''b'' ''b.md'' [(''back'', ''a'')],
           example_node ''a'' ''a.md'' [(''on'', ''b'')],
           example_node ''b'' ''b.md'' [(''back'', ''a'')]]]"
  by (simp add: looping_nodes_def example_rotated_def example_group_def example_node_def
      depth_search.simps search_targets_def choice_values_def parts_revisit_def
      canonical_looping_result index_of_def)

text \<open>
  Claim C4 at a failing input. The documents story/s/1.md, story/m/1.md and story/t/end.md
  give three groups, each reachable from the start group s by valid links that leave
  groups which are not end groups (s to m, m to t). The traversal keys \<^verbatim>\<open>visited\<close> by
  \<^verbatim>\<open>filepath.name\<close>, the base name, which the nodes of s and m share: the node of m is
  taken for visited and never expanded, and the node of t is reported unreachable.
\<close>

theorem unreachable_nodes_same_file_name:
  "wf_graph example_same_file_name \<and>
   map fst example_same_file_name = [''s'', ''m'', ''t''] \<and>
   reachable_before_end example_same_file_name ''s'' \<and>
   reachable_before_end example_same_file_name ''m'' \<and>
   reachable_before_end example_same_file_name ''t'' \<and>
   reachable_via_valid_links example_same_file_name ''s'' \<and>
   reachable_via_valid_links example_same_file_name ''m'' \<and>
   reachable_via_valid_links example_same_file_name ''t'' \<and>
   unreachable_nodes example_same_file_name = Inr [example_variant ''t'' ''end.md'' []]"
proof -
  let ?s = "example_group [example_variant ''s'' ''1.md'' [(''go'', ''m'')]] True False"
  let ?m = "example_group [example_variant ''m'' ''1.md'' [(''on'', ''t'')]] False False"
  have w: "wf_graph example_same_file_name"
    by (simp add: wf_graph_def example_same_file_name_def example_group_def example_variant_def)
  have k: "map fst example_same_file_name = [''s'', ''m'', ''t'']"
    by (simp add: example_same_file_name_def)
  have s: "reachable_before_end example_same_file_name ''s''"
    by (rule rb_start[where p = ?s])
       (simp_all add: example_same_file_name_def example_group_def)
  have m: "reachable_before_end example_same_file_name ''m''"
    by (rule rb_step[OF s, where p = ?s and v = "example_variant ''s'' ''1.md'' [(''go'', ''m'')]"])
       (simp_all add: example_same_file_name_def example_group_def example_variant_def
          choice_values_def in_parts_def)
  have t: "reachable_before_end example_same_file_name ''t''"
    by (rule rb_step[OF m, where p = ?m and v = "example_variant ''m'' ''1.md'' [(''on'', ''t'')]"])
       (simp_all add: example_same_file_name_def example_group_def example_variant_def
          choice_values_def in_parts_def)
  have s': "reachable_via_valid_links example_same_file_name ''s''"
    by (rule rv_start[where p = ?s])
       (simp_all add: example_same_file_name_def example_group_def)
  have m': "reachable_via_valid_links example_same_file_name ''m''"
    by (rule rv_step[OF s', where p = ?s and v = "example_variant ''s'' ''1.md'' [(''go'', ''m'')]"])
       (simp_all add: example_same_file_name_def example_group_def example_variant_def
          choice_values_def in_parts_def)
  have t': "reachable_via_valid_links example_same_file_name ''t''"
    by (rule rv_step[OF m', where p = ?m and v = "example_variant ''m'' ''1.md'' [(''on'', ''t'')]"])
       (simp_all add: example_same_file_name_def example_group_def example_variant_def
          choice_values_def in_parts_def)
  have u: "unreachable_nodes example_same_file_name = Inr [example_variant ''t'' ''end.md'' []]"
    by (simp add: unreachable_nodes_def example_same_file_name_def example_group_def
        example_variant_def unreachable_loop.simps choice_values_def path_name_def Let_def)
  from w k s m t s' m' t' u show ?thesis by simp
qed

lemma traverse_targets_subset:
  "set (traverse_targets parts pn p) \<subseteq> set (all_nodes parts)"
  unfolding traverse_targets_def
  by (auto split: option.splits if_splits dest: variants_in_all_nodes variants_in_all_nodes')

lemma traverse_total:
  "wf_graph parts \<Longrightarrow> node \<in> set (all_nodes parts) \<Longrightarrow> \<exists>st'. traverse parts node path st = Inr st'"
proof (induction parts node path st rule: traverse.induct)
  case (1 parts node path st)
  note wf = "1.prems"(1) and nin = "1.prems"(2)
  from wf_graph_lookup[OF wf nin] obtain p where p: "map_of parts (pathname node) = Some p"
    by blast
  define new_path where "new_path = path @ [node]"
  define pathnames where "pathnames = map pathname new_path"
  show ?case
  proof (cases "length path > 5 * length parts \<or> pathnames \<in> snd st")
    case True
    then show ?thesis
      unfolding pathnames_def new_path_def by (subst traverse.simps) (auto simp: Let_def)
  next
    case False
    then have nb: "\<not> length path > 5 * length parts" and nv: "pathnames \<notin> snd st" by auto
    define visited_paths where "visited_paths = insert pathnames (snd st)"
    show ?thesis
    proof (cases "is_end p \<or> \<not> has_valid_choices parts p")
      case True
      then show ?thesis
        using nb nv p unfolding pathnames_def new_path_def
        by (subst traverse.simps) (auto simp: Let_def)
    next
      case go: False
      define step where "step = (\<lambda>next_variant acc.
                       case acc of
                         Inl e \<Rightarrow> Inl e
                       | Inr st' \<Rightarrow> traverse parts next_variant new_path st')"
      have run: "\<exists>st'. fold step ts (Inr acc) = Inr st'"
        if "set ts \<subseteq> set (traverse_targets parts pathnames p)" for ts acc
        using that
      proof (induction ts arbitrary: acc)
        case Nil
        then show ?case by simp
      next
        case (Cons t ts)
        from Cons.prems have tin: "t \<in> set (traverse_targets parts pathnames p)" by simp
        then have "t \<in> set (all_nodes parts)"
          using traverse_targets_subset by blast
        from "1.IH"[OF new_path_def pathnames_def nb nv visited_paths_def p go tin wf this]
        obtain st' where "traverse parts t new_path acc = Inr st'" by blast
        moreover from Cons.prems have "set ts \<subseteq> set (traverse_targets parts pathnames p)"
          by simp
        from Cons.IH[OF this] obtain st'' where "fold step ts (Inr st') = Inr st''"
          by blast
        ultimately show ?case by (simp add: step_def)
      qed
      from run[OF subset_refl] obtain st' where
        "fold step (traverse_targets parts pathnames p) (Inr (fst st, visited_paths)) = Inr st'"
        by blast
      then show ?thesis
        using nb nv p go unfolding pathnames_def new_path_def step_def visited_paths_def
        by (subst traverse.simps) (auto simp: Let_def)
    qed
  qed
qed

lemma enumerate_paths_total:
  assumes wf: "wf_graph parts"
  shows "\<exists>all_paths. enumerate_paths parts = Inr all_paths"
proof -
  define step where "step = (\<lambda>start acc.
                   case acc of Inl e \<Rightarrow> Inl e | Inr st \<Rightarrow> traverse parts start [] st)"
  have run: "\<exists>st'. fold step ns (Inr acc) = Inr st'"
    if "set ns \<subseteq> set (all_nodes parts)" for ns acc
    using that
  proof (induction ns arbitrary: acc)
    case Nil
    then show ?case by simp
  next
    case (Cons n ns)
    from traverse_total[OF wf, of n "[]" acc] Cons.prems
    obtain st' where "traverse parts n [] acc = Inr st'" by auto
    moreover from Cons.prems have "set ns \<subseteq> set (all_nodes parts)" by simp
    from Cons.IH[OF this] obtain st'' where "fold step ns (Inr st') = Inr st''"
      by blast
    ultimately show ?case by (simp add: step_def)
  qed
  from run[OF starting_nodes_subset] obtain st' where
    "fold step (starting_nodes parts) (Inr ([], {})) = Inr st'" by blast
  then show ?thesis
    unfolding enumerate_paths_def step_def by simp
qed

lemma mean_of_equal_lengths:
  assumes "\<forall>p \<in> set ps. length p = n" and "ps \<noteq> []"
  shows "real (sum_list (map length ps)) / real (length ps) = real n"
proof -
  from assms(1) have "sum_list (map length ps) = length ps * n"
    by (induction ps) auto
  with assms(2) show ?thesis by simp
qed

text \<open>
  Claim C7: for every graph (well-formed, as \<^verbatim>\<open>find_parts\<close> builds it) the enumeration
  returns, and \<^verbatim>\<open>abnormal_paths\<close> returns exactly the enumerated playthroughs whose length
  differs from the arithmetic mean of all lengths by more than 1, in enumeration order;
  so it returns the empty list when all playthroughs have the same length and when there
  is none.
\<close>

theorem abnormal_paths_mean:
  assumes "wf_graph parts"
  shows "\<exists>all_paths. enumerate_paths parts = Inr all_paths \<and>
     abnormal_paths parts =
       Inr (filter (\<lambda>path. \<bar>real (length path)
              - real (sum_list (map length all_paths)) / real (length all_paths)\<bar> > 1) all_paths) \<and>
     ((\<forall>p \<in> set all_paths. \<forall>q \<in> set all_paths. length p = length q) \<longrightarrow>
        abnormal_paths parts = Inr []) \<and>
     (all_paths = [] \<longrightarrow> abnormal_paths parts = Inr [])"
proof -
  from enumerate_paths_total[OF assms] obtain all_paths where
    e: "enumerate_paths parts = Inr all_paths" by blast
  have a: "abnormal_paths parts =
       Inr (filter (\<lambda>path. \<bar>real (length path)
              - real (sum_list (map length all_paths)) / real (length all_paths)\<bar> > 1) all_paths)"
    using e by (simp add: abnormal_paths_def Let_def)
  have eq: "abnormal_paths parts = Inr []"
    if same: "\<forall>p \<in> set all_paths. \<forall>q \<in> set all_paths. length p = length q"
  proof (cases "all_paths = []")
    case True
    with e show ?thesis by (simp add: abnormal_paths_def)
  next
    case False
    then obtain p0 where p0: "p0 \<in> set all_paths" by (cases all_paths) auto
    with same have "\<forall>p \<in> set all_paths. length p = length p0" by blast
    from mean_of_equal_lengths[OF this False]
    have m: "real (sum_list (map length all_paths)) / real (length all_paths) = real (length p0)" .
    have "\<not> \<bar>real (length p) - real (length p0)\<bar> > 1" if "p \<in> set all_paths" for p
    proof -
      from same that p0 have "length p = length p0" by blast
      then show ?thesis by simp
    qed
    then have "filter (\<lambda>path. \<bar>real (length path) - real (length p0)\<bar> > 1) all_paths = []"
      unfolding filter_empty_conv by blast
    with a show ?thesis unfolding m by simp
  qed
  have none: "abnormal_paths parts = Inr []" if "all_paths = []"
    using e that by (simp add: abnormal_paths_def)
  show ?thesis
  proof (intro exI[of _ all_paths] conjI impI)
    show "enumerate_paths parts = Inr all_paths" by (rule e)
    show "abnormal_paths parts =
       Inr (filter (\<lambda>path. \<bar>real (length path)
              - real (sum_list (map length all_paths)) / real (length all_paths)\<bar> > 1) all_paths)"
      by (rule a)
    show "abnormal_paths parts = Inr []"
      if "\<forall>p \<in> set all_paths. \<forall>q \<in> set all_paths. length p = length q"
      using that by (rule eq)
    show "abnormal_paths parts = Inr []" if "all_paths = []"
      using that by (rule none)
  qed
qed

lemma example_two_lengths_paths:
  "enumerate_paths example_two_lengths =
     Inr [[example_node ''s'' ''s.md'' [(''quit'', ''e1''), (''go'', ''a'')],
           example_node ''e1'' ''e1.md'' []],
          [example_node ''s'' ''s.md'' [(''quit'', ''e1''), (''go'', ''a'')],
           example_node ''a'' ''a.md'' [(''on'', ''b'')],
           example_node ''b'' ''b.md'' [(''on'', ''c'')],
           example_node ''c'' ''c.md'' [(''on'', ''e2'')],
           example_node ''e2'' ''e2.md'' []]]"
  by (simp add: enumerate_paths_def example_two_lengths_def example_group_def example_node_def
      traverse.simps traverse_targets_def has_valid_choices_def choice_values_def in_parts_def
      parts_revisit_def Let_def)

theorem abnormal_paths_mean_witness:
  "wf_graph example_two_lengths \<and>
   enumerate_paths example_two_lengths =
     Inr [[example_node ''s'' ''s.md'' [(''quit'', ''e1''), (''go'', ''a'')],
           example_node ''e1'' ''e1.md'' []],
          [example_node ''s'' ''s.md'' [(''quit'', ''e1''), (''go'', ''a'')],
           example_node ''a'' ''a.md'' [(''on'', ''b'')],
           example_node ''b'' ''b.md'' [(''on'', ''c'')],
           example_node ''c'' ''c.md'' [(''on'', ''e2'')],
           example_node ''e2'' ''e2.md'' []]] \<and>
   abnormal_paths example_two_lengths =
     Inr [[example_node ''s'' ''s.md'' [(''quit'', ''e1''), (''go'', ''a'')],
           example_node ''e1'' ''e1.md'' []],
          [example_node ''s'' ''s.md'' [(''quit'', ''e1''), (''go'', ''a'')],
           example_node ''a'' ''a.md'' [(''on'', ''b'')],
           example_node ''b'' ''b.md'' [(''on'', ''c'')],
           example_node ''c'' ''c.md'' [(''on'', ''e2'')],
           example_node ''e2'' ''e2.md'' []]]"
proof -
  have w: "wf_graph example_two_lengths"
    by (simp add: wf_graph_def example_two_lengths_def example_group_def example_node_def)
  from abnormal_paths_mean[OF w] w example_two_lengths_paths
  show ?thesis by simp
qed

lemma abnormal_paths_self_loop:
  "enumerate_paths example_self_loop = Inr [] \<and> abnormal_paths example_self_loop = Inr []"
  by (simp add: abnormal_paths_def enumerate_paths_def example_self_loop_def example_group_def
      example_node_def traverse.simps traverse_targets_def has_valid_choices_def
      choice_values_def in_parts_def parts_revisit_def Let_def)

lemma command_metadata_loop_no_attribute:
  "(\<And>part. getattr part property = AttrNone) \<Longrightarrow>
   command_metadata_loop ps regex property nodes = Inr nodes"
  by (induction ps arbitrary: nodes) (simp_all add: Let_def)

lemma getattr_hyphenated:
  "getattr part ''message-pov'' = AttrNone" "getattr part ''message-title'' = AttrNone"
  by (simp_all add: getattr_def)

text \<open>
  Claim C6 at a failing input. \<^verbatim>\<open>message_metadata\<close> and \<^verbatim>\<open>message_title_metadata\<close> ask
  \<^verbatim>\<open>getattr\<close> for the attributes \<^verbatim>\<open>message-pov\<close> and \<^verbatim>\<open>message-title\<close>; the fields are
  named \<^verbatim>\<open>messagepov\<close> and \<^verbatim>\<open>messagetitle\<close>, so the value is always \<^verbatim>\<open>None\<close> and the two
  checks report no node of any graph. The node of the example declares a message-pov and
  a message-title that do not match the accepted patterns and is not reported, while the
  sibling check \<^verbatim>\<open>pov_metadata\<close>, which asks for an existing field, reports its bad pov.
\<close>

theorem message_metadata_never_reports:
  "message_metadata parts = Inr [] \<and> message_title_metadata parts = Inr [] \<and>
   messagepov example_message_node = Some ''narrator'' \<and>
   \<not> rx_match META_MESSAGE_PATTERN ''narrator'' \<and>
   messagetitle example_message_node = Some ''Group chat'' \<and>
   \<not> rx_match META_MESSAGE_TITLE_PATTERN ''Group chat'' \<and>
   message_metadata example_bad_message = Inr [] \<and>
   message_title_metadata example_bad_message = Inr [] \<and>
   pov_metadata example_bad_message = Inr [example_message_node]"
proof -
  have a: "message_metadata g = Inr []" for g
    unfolding message_metadata_def command_metadata_def
    by (rule command_metadata_loop_no_attribute) (rule getattr_hyphenated)
  have b: "message_title_metadata g = Inr []" for g
    unfolding message_title_metadata_def command_metadata_def
    by (rule command_metadata_loop_no_attribute) (rule getattr_hyphenated)
  have c: "messagepov example_message_node = Some ''narrator''"
    "messagetitle example_message_node = Some ''Group chat''"
    by (simp_all add: example_message_node_def example_node_def)
  have d: "\<not> rx_match META_MESSAGE_PATTERN ''narrator''"
    "\<not> rx_match META_MESSAGE_TITLE_PATTERN ''Group chat''"
    by (simp_all add: rx_match_def META_MESSAGE_PATTERN_def META_MESSAGE_TITLE_PATTERN_def)
  have m: "\<not> rx_match META_POV_PATTERN ''two words''"
    by code_simp
  have e: "pov_metadata example_bad_message = Inr [example_message_node]"
    using m
    by (simp add: pov_metadata_def command_metadata_def example_bad_message_def
        example_group_def getattr_def attr_of_option_def Let_def example_message_node_def
        example_node_def)
  from a b c d e show ?thesis by simp
qed















































end
